theory Spec2Isabelle
  imports Complex_Main "HOL-Library.Multiset"
begin

text \<open>
  A shallow embedding of the Sudoku engine of this repository: the generator and solver
  of \<^verbatim>\<open>src/js/generator.js\<close> (\<^verbatim>\<open>SudokuGenerator\<close>) and the hint engine of
  \<^verbatim>\<open>src/js/hints.js\<close> (\<^verbatim>\<open>SudokuHints\<close>). The model comes first, function by function
  under the source's names; then what the validity checks mean, the correctness of the
  three backtracking searches, the generator and the hint engine; the properties of the
  specification are in the last section.
\<close>

section \<open>Grids\<close>

text \<open>
  The engine works on 9x9 arrays of numbers, 0 meaning "empty". A grid is a list of rows.
  The source indexes rows and columns 0..8 without checking the shape; the shape is
  stated as \<open>wf_grid\<close> and is a hypothesis wherever a property is about "every 9x9 grid".
  A read past the end of a short row is JavaScript's \<^verbatim>\<open>undefined\<close>, which is not
  \<^verbatim>\<open>=== 0\<close>: \<open>cellEmpty\<close> writes that out. A read in a missing row raises a TypeError in
  the source; the model has no such branch, and nothing is claimed about grids that are
  not 9x9. A write \<^verbatim>\<open>grid[row][col] = v\<close> is \<open>setCell\<close>; the functions that mutate their
  argument return the grid they leave behind.
\<close>

type_synonym grid = "int list list"

definition wf_grid :: "grid \<Rightarrow> bool" where
  "wf_grid grid = (length grid = 9 \<and> list_all (\<lambda>row. length row = 9) grid)"

definition emptyGrid :: grid where
  "emptyGrid = replicate 9 (replicate 9 0)"

definition setCell :: "grid \<Rightarrow> nat \<Rightarrow> nat \<Rightarrow> int \<Rightarrow> grid" where
  "setCell grid row col v = grid[row := (grid ! row)[col := v]]"

definition inRange :: "grid \<Rightarrow> nat \<Rightarrow> nat \<Rightarrow> bool" where
  "inRange grid row col = (row < length grid \<and> col < length (grid ! row))"

definition cellEmpty :: "grid \<Rightarrow> nat \<times> nat \<Rightarrow> bool" where
  "cellEmpty grid p = (inRange grid (fst p) (snd p) \<and> grid ! fst p ! snd p = 0)"

text \<open>The 81 positions in the order of the nested loops \<^verbatim>\<open>for row, for col\<close>.\<close>

definition allCells :: "(nat \<times> nat) list" where
  "allCells = [(row, col). row \<leftarrow> [0..<9], col \<leftarrow> [0..<9]]"

text \<open>\<^verbatim>\<open>findEmptyCell\<close>: the first zero in row-major order, or null.\<close>

definition findEmptyCell :: "grid \<Rightarrow> (nat \<times> nat) option" where
  "findEmptyCell grid = find (cellEmpty grid) allCells"

text \<open>\<^verbatim>\<open>isValidPlacement\<close>: row (\<^verbatim>\<open>includes\<close>), column, then the 3x3 box.\<close>

definition isValidPlacement :: "grid \<Rightarrow> nat \<Rightarrow> nat \<Rightarrow> int \<Rightarrow> bool" where
  "isValidPlacement grid row col num =
     (if List.member (grid ! row) num then False
      else if list_ex (\<lambda>r. grid ! r ! col = num) [0..<9] then False
      else let boxRow = (row div 3) * 3; boxCol = (col div 3) * 3 in
        \<not> list_ex (\<lambda>r. list_ex (\<lambda>c. grid ! r ! c = num) [boxCol..<boxCol + 3])
             [boxRow..<boxRow + 3])"

subsection \<open>Validation\<close>

text \<open>
  \<^verbatim>\<open>validateRow\<close>, \<^verbatim>\<open>validateColumn\<close> and \<^verbatim>\<open>validateSubgrid\<close> run the same loop body over
  the values of their region: skip 0, fail on a value outside 1..9, fail on a value
  already in \<^verbatim>\<open>seen\<close>, else add it to \<^verbatim>\<open>seen\<close>.
\<close>

fun validateValues :: "int list \<Rightarrow> int list \<Rightarrow> bool" where
  "validateValues [] seen = True"
| "validateValues (num # rest) seen =
     (if num = 0 then validateValues rest seen
      else if num < 1 \<or> num > 9 then False
      else if List.member seen num then False
      else validateValues rest (num # seen))"

definition validateRow :: "grid \<Rightarrow> nat \<Rightarrow> bool" where
  "validateRow grid rowIndex = validateValues (map (\<lambda>col. grid ! rowIndex ! col) [0..<9]) []"

definition validateColumn :: "grid \<Rightarrow> nat \<Rightarrow> bool" where
  "validateColumn grid colIndex = validateValues (map (\<lambda>row. grid ! row ! colIndex) [0..<9]) []"

definition validateSubgrid :: "grid \<Rightarrow> nat \<Rightarrow> nat \<Rightarrow> bool" where
  "validateSubgrid grid boxStartRow boxStartCol =
     validateValues
       [grid ! r ! c. r \<leftarrow> [boxStartRow..<boxStartRow + 3], c \<leftarrow> [boxStartCol..<boxStartCol + 3]] []"

definition isValidGrid :: "grid \<Rightarrow> bool \<Rightarrow> bool" where
  "isValidGrid grid requireComplete =
     (if length grid \<noteq> 9 then False
      else if list_ex (\<lambda>row. length (grid ! row) \<noteq> 9) [0..<9] then False
      else if requireComplete \<and> list_ex (\<lambda>row. list_ex (\<lambda>col. grid ! row ! col = 0) [0..<9]) [0..<9]
        then False
      else if list_ex (\<lambda>row. \<not> validateRow grid row) [0..<9] then False
      else if list_ex (\<lambda>col. \<not> validateColumn grid col) [0..<9] then False
      else if list_ex (\<lambda>boxRow. list_ex (\<lambda>boxCol. \<not> validateSubgrid grid boxRow boxCol) [0, 3, 6])
                [0, 3, 6] then False
      else True)"

subsection \<open>The number of empty cells\<close>

definition zeros :: "grid \<Rightarrow> nat" where
  "zeros grid = sum_list (map (\<lambda>row. count_list row 0) grid)"

lemma count_list_update:
  "c < length xs \<Longrightarrow>
     count_list (xs[c := v]) (0::int) = count_list (xs[c := 1]) 0 + (if v = 0 then 1 else 0)"
  by (induction xs arbitrary: c) (auto split: nat.splits)

lemma sum_list_map_update:
  "r < length g \<Longrightarrow>
     sum_list (map f (g[r := x])) + f y = sum_list (map f (g[r := y])) + (f x :: nat)"
  by (induction g arbitrary: r) (auto split: nat.splits)

lemma zeros_setCell:
  assumes "inRange g r c"
  shows "zeros (setCell g r c v) = zeros (setCell g r c 1) + (if v = 0 then 1 else 0)"
proof -
  let ?f = "\<lambda>row. count_list row (0::int)"
  from assms have r: "r < length g" and c: "c < length (g ! r)" by (auto simp: inRange_def)
  have "sum_list (map ?f (g[r := (g ! r)[c := v]])) + ?f ((g ! r)[c := 1])
      = sum_list (map ?f (g[r := (g ! r)[c := 1]])) + ?f ((g ! r)[c := v])"
    by (rule sum_list_map_update [OF r])
  then show ?thesis
    using count_list_update [OF c, of v] by (simp add: zeros_def setCell_def)
qed

lemma setCell_outside: "\<not> inRange g r c \<Longrightarrow> setCell g r c v = g"
  by (cases "r < length g") (simp_all add: inRange_def setCell_def list_update_beyond)

lemma setCell_setCell: "setCell (setCell g r c v) r c w = setCell g r c w"
  by (cases "r < length g") (simp_all add: setCell_def list_update_beyond)

lemma inRange_setCell: "inRange (setCell g r c v) r' c' = inRange g r' c'"
  by (cases "r = r'") (auto simp: inRange_def setCell_def)

lemma setCell_same: "inRange g r c \<Longrightarrow> g ! r ! c = v \<Longrightarrow> setCell g r c v = g"
  by (auto simp: inRange_def setCell_def)

lemma cellEmpty_setCell: "cellEmpty g (r, c) \<Longrightarrow> setCell g r c 0 = g"
  by (simp add: cellEmpty_def setCell_same)

lemma findEmptyCell_Some: "findEmptyCell g = Some (r, c) \<Longrightarrow> cellEmpty g (r, c)"
  by (auto simp: findEmptyCell_def find_Some_iff)

text \<open>
  The searches terminate because every recursive call has one empty cell fewer. The rank
  of a loop over the candidates of one cell, for the termination proofs: the empty cells
  of the grid with that cell counted as empty, and one more while the loop may still
  write a 0 (\<open>nz\<close> says that it no longer can).
\<close>

definition loopRank :: "grid \<Rightarrow> nat \<Rightarrow> nat \<Rightarrow> bool \<Rightarrow> nat" where
  "loopRank g r c nz =
     (if inRange g r c \<and> nz then zeros (setCell g r c 0) else zeros (setCell g r c 0) + 1)"

lemma loopRank_call: "nz \<longrightarrow> num \<noteq> 0 \<Longrightarrow> zeros (setCell g r c num) < loopRank g r c nz"
proof (cases "inRange g r c")
  case True
  assume "nz \<longrightarrow> num \<noteq> 0"
  then show ?thesis using zeros_setCell [OF True, of num] zeros_setCell [OF True, of 0]
    by (simp add: loopRank_def True)
next
  case False
  then show ?thesis by (simp add: loopRank_def setCell_outside)
qed

lemma loopRank_next:
  "nz \<longrightarrow> nz' \<Longrightarrow> loopRank (setCell g r c v) r c nz' \<le> loopRank g r c nz"
  by (auto simp: loopRank_def setCell_setCell inRange_setCell)

lemma loopRank_next_same: "nz \<longrightarrow> nz' \<Longrightarrow> loopRank g r c nz' \<le> loopRank g r c nz"
  by (auto simp: loopRank_def)

lemma loopRank_first: "cellEmpty g (r, c) \<Longrightarrow> loopRank g r c True = zeros g"
  by (simp add: loopRank_def cellEmpty_setCell) (simp add: cellEmpty_def)

section \<open>Counting solutions\<close>

text \<open>
  \<^verbatim>\<open>countSolutions(grid, count = { value: 0 })\<close> mutates both the grid and the shared
  counter, so the model takes and returns both. \<open>countLoop\<close> is its
  \<^verbatim>\<open>for (let num = 1; num <= 9; num++)\<close> loop, entered at \<open>num\<close>. After a recursive
  call the loop goes on with the grid that call left behind.
\<close>

function (domintros) countSolutions :: "grid \<Rightarrow> nat \<Rightarrow> grid \<times> nat"
  and countLoop :: "grid \<Rightarrow> nat \<Rightarrow> nat \<Rightarrow> nat \<Rightarrow> int \<Rightarrow> grid \<times> nat"
where
  "countSolutions grid cnt =
     (if cnt > 1 then (grid, cnt)
      else case findEmptyCell grid of
        None \<Rightarrow> (grid, cnt + 1)
      | Some (row, col) \<Rightarrow> countLoop grid cnt row col 1)"
| "countLoop grid cnt row col num =
     (if num \<le> 9 then
        (if isValidPlacement grid row col num then
           (case countSolutions (setCell grid row col num) cnt of
              (grid1, cnt1) \<Rightarrow>
                if cnt1 > 1 then (setCell grid1 row col 0, cnt1)
                else countLoop (setCell grid1 row col 0) cnt1 row col (num + 1))
         else countLoop grid cnt row col (num + 1))
      else (grid, cnt))"
  by pat_completeness auto

lemma countSolutions_frame_dom:
  "countSolutions_countLoop_dom (Inl (g, k)) \<Longrightarrow> fst (countSolutions g k) = g"
  "countSolutions_countLoop_dom (Inr (g, k, r, c, n)) \<Longrightarrow>
     fst (countLoop g k r c n) = g \<or> fst (countLoop g k r c n) = setCell g r c 0"
proof (induction g k and g k r c n rule: countSolutions_countLoop.pinduct)
  case (1 grid cnt)
  show ?case
  proof (cases "1 < cnt")
    case True
    then show ?thesis using 1(1) by (simp add: countSolutions.psimps)
  next
    case False
    show ?thesis
    proof (cases "findEmptyCell grid")
      case None
      then show ?thesis using 1(1) False by (simp add: countSolutions.psimps)
    next
      case (Some p)
      obtain row col where p: "p = (row, col)" by (cases p)
      have "setCell grid row col 0 = grid"
        using Some p findEmptyCell_Some cellEmpty_setCell by blast
      moreover have "countSolutions grid cnt = countLoop grid cnt row col 1"
        using 1(1) False Some p by (simp add: countSolutions.psimps)
      ultimately show ?thesis using 1(2) [OF False Some, of row col] p by auto
    qed
  qed
next
  case (2 grid cnt row col num)
  show ?case
  proof (cases "num \<le> 9")
    case False
    then show ?thesis using 2(1) by (simp add: countLoop.psimps)
  next
    case le: True
    show ?thesis
    proof (cases "isValidPlacement grid row col num")
      case False
      then show ?thesis using 2(1) 2(4) le by (simp add: countLoop.psimps)
    next
      case True
      obtain g1 c1 where r: "countSolutions (setCell grid row col num) cnt = (g1, c1)"
        by (cases "countSolutions (setCell grid row col num) cnt")
      have g1: "g1 = setCell grid row col num" using 2(2) [OF le True] r by simp
      have s: "setCell g1 row col 0 = setCell grid row col 0" by (simp add: g1 setCell_setCell)
      show ?thesis
      proof (cases "1 < c1")
        case True
        then show ?thesis using 2(1) le \<open>isValidPlacement grid row col num\<close> r s
          by (simp add: countLoop.psimps)
      next
        case False
        have "countLoop grid cnt row col num = countLoop (setCell g1 row col 0) c1 row col (num + 1)"
          using 2(1) le True r False by (simp add: countLoop.psimps)
        then show ?thesis using 2(3) [OF le True r [symmetric] False] s
          by (simp add: setCell_setCell)
      qed
    qed
  qed
qed

termination countSolutions
proof (relation "measures [
    (\<lambda>x. case x of Inl (g, k) \<Rightarrow> zeros g | Inr (g, k, r, c, n) \<Rightarrow> loopRank g r c (1 \<le> n)),
    (\<lambda>x. case x of Inl _ \<Rightarrow> 1 | Inr _ \<Rightarrow> 0),
    (\<lambda>x. case x of Inl _ \<Rightarrow> 0 | Inr (g, k, r, c, n) \<Rightarrow> nat (10 - n))]", goal_cases)
  case 1
  show ?case by simp
next
  case (2 grid cnt x2 x y)
  then have "cellEmpty grid (x, y)" using findEmptyCell_Some [of grid x y] by simp
  then show ?case by (simp add: loopRank_first)
next
  case (3 grid cnt row col num)
  then show ?case using loopRank_call [of "1 \<le> num" num grid row col] by auto
next
  case (4 grid cnt row col num x y)
  have "x = setCell grid row col num"
    using countSolutions_frame_dom(1) [OF 4(5)] 4(3) by (metis fst_conv)
  then have "loopRank (setCell x row col 0) row col (1 \<le> num + 1) \<le> loopRank grid row col (1 \<le> num)"
    using loopRank_next [of "1 \<le> num" "1 \<le> num + 1" grid row col 0] by (simp add: setCell_setCell)
  then show ?case using 4(1) by auto
next
  case (5 grid cnt row col num)
  then show ?case using loopRank_next_same [of "1 \<le> num" "1 \<le> num + 1" grid row col] by auto
qed

declare countSolutions.simps [simp del] countLoop.simps [simp del]

lemma countSolutions_total:
  "countSolutions_countLoop_dom (Inl (g, k))"
  "countSolutions_countLoop_dom (Inr (g, k, r, c, n))"
  by (induction g k and g k r c n rule: countSolutions_countLoop.induct)
     (auto intro: countSolutions_countLoop.domintros)

lemma countSolutions_frame: "fst (countSolutions g k) = g"
  by (rule countSolutions_frame_dom(1)) (rule countSolutions_total)

text \<open>\<^verbatim>\<open>hasUniqueSolution\<close> counts on a copy of the puzzle, from a fresh counter.\<close>

definition hasUniqueSolution :: "grid \<Rightarrow> bool" where
  "hasUniqueSolution puzzle = (let copy = puzzle in snd (countSolutions copy 0) = 1)"

section \<open>The random source and the shuffle\<close>

text \<open>
  \<^verbatim>\<open>Math.random()\<close> returns a number in [0, 1). The model takes the sequence of the
  numbers it will return as an argument (\<open>rng\<close>) and reads them as reals (the rounding
  of floating-point products is not modelled); a call takes the first and leaves the
  rest. Every function that calls \<^verbatim>\<open>Math.random\<close> takes the source and returns what is
  left of it, so a property proved for every source holds for every run.
\<close>

typedef rand01 = "{x::real. 0 \<le> x \<and> x < 1}"
  by (rule exI [of _ 0]) simp

type_synonym rng = "nat \<Rightarrow> rand01"

definition mathRandom :: "rng \<Rightarrow> real \<times> rng" where
  "mathRandom rnd = (Rep_rand01 (rnd 0), \<lambda>k. rnd (Suc k))"

text \<open>
  \<^verbatim>\<open>shuffleArray\<close>: Fisher-Yates on a copy. \<open>shuffleLoop\<close> is the loop
  \<^verbatim>\<open>for (let i = shuffled.length - 1; i > 0; i--)\<close>, entered at \<open>i\<close>; the swap
  \<^verbatim>\<open>[shuffled[i], shuffled[j]] = [shuffled[j], shuffled[i]]\<close> reads both values first.
\<close>

fun shuffleLoop :: "nat \<Rightarrow> 'a list \<Rightarrow> rng \<Rightarrow> 'a list \<times> rng" where
  "shuffleLoop i shuffled rnd =
     (if i > 0 then
        (case mathRandom rnd of (u, rnd') \<Rightarrow>
           let j = nat \<lfloor>u * real (i + 1)\<rfloor> in
           shuffleLoop (i - 1) (shuffled[i := shuffled ! j, j := shuffled ! i]) rnd')
      else (shuffled, rnd))"

declare shuffleLoop.simps [simp del]

definition shuffleArray :: "'a list \<Rightarrow> rng \<Rightarrow> 'a list \<times> rng" where
  "shuffleArray array rnd = (let shuffled = array in shuffleLoop (length shuffled - 1) shuffled rnd)"

lemma mathRandom_index:
  "mathRandom rnd = (u, rnd') \<Longrightarrow> nat \<lfloor>u * real (i + 1)\<rfloor> \<le> i"
proof -
  assume "mathRandom rnd = (u, rnd')"
  then have u: "0 \<le> u" "u < 1" using Rep_rand01 [of "rnd 0"] by (auto simp: mathRandom_def)
  then have "u * real (i + 1) < real (i + 1)" by simp
  then have "\<lfloor>u * real (i + 1)\<rfloor> < int (i + 1)" by (simp add: floor_less_iff)
  then show ?thesis by linarith
qed

lemma mset_shuffleLoop:
  "i < length xs \<Longrightarrow> mset (fst (shuffleLoop i xs rnd)) = mset xs"
proof (induction i xs rnd rule: shuffleLoop.induct)
  case (1 i shuffled rnd)
  show ?case
  proof (cases "i > 0")
    case False
    then show ?thesis by (simp add: shuffleLoop.simps)
  next
    case True
    obtain u rnd' where r: "mathRandom rnd = (u, rnd')" by (cases "mathRandom rnd")
    define j where "j = nat \<lfloor>u * real (i + 1)\<rfloor>"
    have j: "j \<le> i" unfolding j_def by (rule mathRandom_index [OF r])
    let ?s = "shuffled[i := shuffled ! j, j := shuffled ! i]"
    have "mset ?s = mset shuffled" using j 1(2) by (simp add: mset_swap)
    moreover have "mset (fst (shuffleLoop (i - 1) ?s rnd')) = mset ?s"
      using 1(1) [OF True r [symmetric] j_def] 1(2) by simp
    moreover have "shuffleLoop i shuffled rnd = shuffleLoop (i - 1) ?s rnd'"
      using True r by (subst shuffleLoop.simps) (simp add: j_def Let_def)
    ultimately show ?thesis by simp
  qed
qed

lemma mset_shuffleArray: "mset (fst (shuffleArray xs rnd)) = mset xs"
proof (cases xs)
  case Nil
  then show ?thesis by (simp add: shuffleArray_def shuffleLoop.simps)
next
  case (Cons a list)
  then show ?thesis by (simp add: shuffleArray_def mset_shuffleLoop)
qed

lemma set_shuffleArray: "shuffleArray xs rnd = (ys, rnd') \<Longrightarrow> set ys = set xs"
  using mset_shuffleArray [of xs rnd] by (metis fst_conv set_mset_mset)

section \<open>Filling and solving by backtracking\<close>

text \<open>
  \<^verbatim>\<open>fillGrid\<close> mutates its grid and draws a fresh shuffle of 1..9 at every call; the
  model returns the grid left behind, the success flag and the rest of the random
  source. \<open>fillLoop\<close> is the loop \<^verbatim>\<open>for (const num of numbers)\<close> over the numbers still
  to try.
\<close>

function (domintros) fillGrid :: "grid \<Rightarrow> rng \<Rightarrow> grid \<times> bool \<times> rng"
  and fillLoop :: "grid \<Rightarrow> rng \<Rightarrow> nat \<Rightarrow> nat \<Rightarrow> int list \<Rightarrow> grid \<times> bool \<times> rng"
where
  "fillGrid grid rnd =
     (case findEmptyCell grid of
        None \<Rightarrow> (grid, True, rnd)
      | Some (row, col) \<Rightarrow>
          (case shuffleArray [1, 2, 3, 4, 5, 6, 7, 8, 9] rnd of
             (numbers, rnd') \<Rightarrow> fillLoop grid rnd' row col numbers))"
| "fillLoop grid rnd row col [] = (grid, False, rnd)"
| "fillLoop grid rnd row col (num # numbers) =
     (if isValidPlacement grid row col num then
        (case fillGrid (setCell grid row col num) rnd of
           (grid1, ok, rnd1) \<Rightarrow>
             if ok then (grid1, True, rnd1)
             else fillLoop (setCell grid1 row col 0) rnd1 row col numbers)
      else fillLoop grid rnd row col numbers)"
  by pat_completeness auto

lemma fillGrid_frame_dom:
  "fillGrid_fillLoop_dom (Inl (g, rnd)) \<Longrightarrow>
     \<not> fst (snd (fillGrid g rnd)) \<Longrightarrow> fst (fillGrid g rnd) = g"
  "fillGrid_fillLoop_dom (Inr (g, rnd, r, c, nums)) \<Longrightarrow>
     \<not> fst (snd (fillLoop g rnd r c nums)) \<Longrightarrow>
     fst (fillLoop g rnd r c nums) = g \<or> fst (fillLoop g rnd r c nums) = setCell g r c 0"
proof (induction g rnd and g rnd r c nums rule: fillGrid_fillLoop.pinduct)
  case (1 grid rnd)
  show ?case
  proof (cases "findEmptyCell grid")
    case None
    then show ?thesis using 1(1) by (simp add: fillGrid.psimps)
  next
    case (Some p)
    obtain row col where p: "p = (row, col)" by (cases p)
    obtain numbers rnd' where s: "shuffleArray [1, 2, 3, 4, 5, 6, 7, 8, 9::int] rnd = (numbers, rnd')"
      by (cases "shuffleArray [1, 2, 3, 4, 5, 6, 7, 8, 9::int] rnd")
    have "setCell grid row col 0 = grid"
      using Some p findEmptyCell_Some cellEmpty_setCell by blast
    moreover have "fillGrid grid rnd = fillLoop grid rnd' row col numbers"
      using 1(1) Some p s by (simp add: fillGrid.psimps)
    ultimately show ?thesis using 1(2) [OF Some p [symmetric] s [symmetric]] 1(3) by auto
  qed
next
  case (2 grid rnd row col)
  then show ?case by (simp add: fillLoop.psimps)
next
  case (3 grid rnd row col num numbers)
  show ?case
  proof (cases "isValidPlacement grid row col num")
    case False
    then show ?thesis using 3(1) 3(4) 3(5) by (simp add: fillLoop.psimps)
  next
    case True
    obtain g1 ok rnd1 where r: "fillGrid (setCell grid row col num) rnd = (g1, ok, rnd1)"
      by (cases "fillGrid (setCell grid row col num) rnd")
    show ?thesis
    proof (cases ok)
      case True
      then show ?thesis using 3(1) 3(5) \<open>isValidPlacement grid row col num\<close> r
        by (simp add: fillLoop.psimps)
    next
      case False
      have g1: "g1 = setCell grid row col num" using 3(2) [OF True] r False by simp
      have e: "fillLoop grid rnd row col (num # numbers)
          = fillLoop (setCell g1 row col 0) rnd1 row col numbers"
        using 3(1) True r False by (simp add: fillLoop.psimps)
      show ?thesis using 3(3) [OF True r [symmetric] refl False] 3(5) e g1
        by (simp add: setCell_setCell)
    qed
  qed
qed

termination fillGrid
proof (relation "measures [
    (\<lambda>x. case x of Inl (g, rnd) \<Rightarrow> zeros g
               | Inr (g, rnd, r, c, nums) \<Rightarrow> loopRank g r c (0 \<notin> set nums)),
    (\<lambda>x. case x of Inl _ \<Rightarrow> 1 | Inr _ \<Rightarrow> 0),
    (\<lambda>x. case x of Inl _ \<Rightarrow> 0 | Inr (g, rnd, r, c, nums) \<Rightarrow> length nums)]", goal_cases)
  case 1
  show ?case by simp
next
  case (2 grid rnd x2 x y xa ya)
  then have "cellEmpty grid (x, y)" using findEmptyCell_Some [of grid x y] by simp
  moreover have "set xa = set [1, 2, 3, 4, 5, 6, 7, 8, 9]"
    using set_shuffleArray [OF 2(3) [symmetric]] .
  ultimately show ?case by (simp add: loopRank_first)
next
  case (3 grid rnd row col num numbers)
  then show ?case using loopRank_call [of "0 \<notin> set (num # numbers)" num grid row col] by auto
next
  case (4 grid rnd row col num numbers x y xa ya)
  have "x = setCell grid row col num"
    using fillGrid_frame_dom(1) [OF 4(5)] 4(2) 4(3) 4(4)
    by (metis fst_conv snd_conv)
  then have "loopRank (setCell x row col 0) row col (0 \<notin> set numbers)
      \<le> loopRank grid row col (0 \<notin> set (num # numbers))"
    using loopRank_next [of "0 \<notin> set (num # numbers)" "0 \<notin> set numbers" grid row col 0]
    by (simp add: setCell_setCell)
  then show ?case by auto
next
  case (5 grid rnd row col num numbers)
  then show ?case
    using loopRank_next_same [of "0 \<notin> set (num # numbers)" "0 \<notin> set numbers" grid row col]
    by auto
qed

declare fillGrid.simps [simp del] fillLoop.simps [simp del]

text \<open>
  \<^verbatim>\<open>solveGrid\<close>: the same search with the numbers in ascending order. \<^verbatim>\<open>solve\<close> runs it
  on a copy of the puzzle and returns the copy, or null.
\<close>

function (domintros) solveGrid :: "grid \<Rightarrow> grid \<times> bool"
  and solveLoop :: "grid \<Rightarrow> nat \<Rightarrow> nat \<Rightarrow> int \<Rightarrow> grid \<times> bool"
where
  "solveGrid grid =
     (case findEmptyCell grid of
        None \<Rightarrow> (grid, True)
      | Some (row, col) \<Rightarrow> solveLoop grid row col 1)"
| "solveLoop grid row col num =
     (if num \<le> 9 then
        (if isValidPlacement grid row col num then
           (case solveGrid (setCell grid row col num) of
              (grid1, ok) \<Rightarrow>
                if ok then (grid1, True)
                else solveLoop (setCell grid1 row col 0) row col (num + 1))
         else solveLoop grid row col (num + 1))
      else (grid, False))"
  by pat_completeness auto

lemma solveGrid_frame_dom:
  "solveGrid_solveLoop_dom (Inl g) \<Longrightarrow> \<not> snd (solveGrid g) \<Longrightarrow> fst (solveGrid g) = g"
  "solveGrid_solveLoop_dom (Inr (g, r, c, n)) \<Longrightarrow> \<not> snd (solveLoop g r c n) \<Longrightarrow>
     fst (solveLoop g r c n) = g \<or> fst (solveLoop g r c n) = setCell g r c 0"
proof (induction g and g r c n rule: solveGrid_solveLoop.pinduct)
  case (1 grid)
  show ?case
  proof (cases "findEmptyCell grid")
    case None
    then show ?thesis using 1(1) by (simp add: solveGrid.psimps)
  next
    case (Some p)
    obtain row col where p: "p = (row, col)" by (cases p)
    have "setCell grid row col 0 = grid"
      using Some p findEmptyCell_Some cellEmpty_setCell by blast
    moreover have "solveGrid grid = solveLoop grid row col 1"
      using 1(1) Some p by (simp add: solveGrid.psimps)
    ultimately show ?thesis using 1(2) [OF Some p [symmetric]] 1(3) by auto
  qed
next
  case (2 grid row col num)
  show ?case
  proof (cases "num \<le> 9")
    case False
    then show ?thesis using 2(1) by (simp add: solveLoop.psimps)
  next
    case le: True
    show ?thesis
    proof (cases "isValidPlacement grid row col num")
      case False
      then show ?thesis using 2(1) 2(4) 2(5) le by (simp add: solveLoop.psimps)
    next
      case True
      obtain g1 ok where r: "solveGrid (setCell grid row col num) = (g1, ok)"
        by (cases "solveGrid (setCell grid row col num)")
      show ?thesis
      proof (cases ok)
        case True
        then show ?thesis using 2(1) 2(5) le \<open>isValidPlacement grid row col num\<close> r
          by (simp add: solveLoop.psimps)
      next
        case False
        have g1: "g1 = setCell grid row col num" using 2(2) [OF le True] r False by simp
        have e: "solveLoop grid row col num = solveLoop (setCell g1 row col 0) row col (num + 1)"
          using 2(1) le True r False by (simp add: solveLoop.psimps)
        show ?thesis using 2(3) [OF le True r [symmetric] False] 2(5) e g1
          by (simp add: setCell_setCell)
      qed
    qed
  qed
qed

termination solveGrid
proof (relation "measures [
    (\<lambda>x. case x of Inl g \<Rightarrow> zeros g | Inr (g, r, c, n) \<Rightarrow> loopRank g r c (1 \<le> n)),
    (\<lambda>x. case x of Inl _ \<Rightarrow> 1 | Inr _ \<Rightarrow> 0),
    (\<lambda>x. case x of Inl _ \<Rightarrow> 0 | Inr (g, r, c, n) \<Rightarrow> nat (10 - n))]", goal_cases)
  case 1
  show ?case by simp
next
  case (2 grid x2 x y)
  then have "cellEmpty grid (x, y)" using findEmptyCell_Some [of grid x y] by simp
  then show ?case by (simp add: loopRank_first)
next
  case (3 grid row col num)
  then show ?case using loopRank_call [of "1 \<le> num" num grid row col] by auto
next
  case (4 grid row col num x y)
  have "x = setCell grid row col num"
    using solveGrid_frame_dom(1) [OF 4(5)] 4(3) 4(4) by (metis fst_conv snd_conv)
  then have "loopRank (setCell x row col 0) row col (1 \<le> num + 1) \<le> loopRank grid row col (1 \<le> num)"
    using loopRank_next [of "1 \<le> num" "1 \<le> num + 1" grid row col 0] by (simp add: setCell_setCell)
  then show ?case using 4(1) by auto
next
  case (5 grid row col num)
  then show ?case using loopRank_next_same [of "1 \<le> num" "1 \<le> num + 1" grid row col] by auto
qed

declare solveGrid.simps [simp del] solveLoop.simps [simp del]

definition solve :: "grid \<Rightarrow> grid option" where
  "solve puzzle =
     (let grid = puzzle in
      case solveGrid grid of (grid', ok) \<Rightarrow> if ok then Some grid' else None)"

section \<open>The generator\<close>

text \<open>
  \<^verbatim>\<open>generateSolution(maxAttempts = 10)\<close>: up to \<open>maxAttempts\<close> validated attempts, then a
  last one, and a call of itself if that fails too. The recursion has no bound of its
  own, so the function is partial: \<open>None\<close> is "does not return".
\<close>

function generateSolutionLoop :: "nat \<Rightarrow> nat \<Rightarrow> rng \<Rightarrow> grid option \<times> rng" where
  "generateSolutionLoop attempt maxAttempts rnd =
     (if attempt < maxAttempts then
        (case fillGrid emptyGrid rnd of
           (grid, ok, rnd') \<Rightarrow>
             if isValidGrid grid True then (Some grid, rnd')
             else generateSolutionLoop (attempt + 1) maxAttempts rnd')
      else (None, rnd))"
  by pat_completeness auto

termination generateSolutionLoop
  by (relation "measure (\<lambda>(attempt, maxAttempts, rnd). maxAttempts - attempt)") auto

declare generateSolutionLoop.simps [simp del]

partial_function (option) generateSolution :: "nat \<Rightarrow> rng \<Rightarrow> (grid \<times> rng) option" where
  "generateSolution maxAttempts rnd =
     (case generateSolutionLoop 0 maxAttempts rnd of
        (Some grid, rnd') \<Rightarrow> Some (grid, rnd')
      | (None, rnd') \<Rightarrow>
          (case fillGrid emptyGrid rnd' of
             (grid, ok, rnd'') \<Rightarrow>
               if \<not> isValidGrid grid True then generateSolution maxAttempts rnd''
               else Some (grid, rnd'')))"

text \<open>
  The difficulty is a string compared with \<^verbatim>\<open>'hard'\<close> and \<^verbatim>\<open>'superhard'\<close> and looked up
  in \<^verbatim>\<open>clueRanges\<close>: one of the four tags, or \<open>Other\<close> for a string that names no
  entry of the table (the tests pass \<^verbatim>\<open>'extreme'\<close>), for which
  \<^verbatim>\<open>clueRanges[difficulty] || clueRanges.easy\<close> falls back to the range of easy. A string
  that names a property every JavaScript object inherits (such as \<^verbatim>\<open>'constructor'\<close>) is
  not a difficulty of the model. A range is (min, max).
\<close>

datatype difficulty = Easy | Medium | Hard | Superhard | Other

fun clueRanges :: "difficulty \<Rightarrow> (nat \<times> nat) option" where
  "clueRanges Easy = Some (45, 50)"
| "clueRanges Medium = Some (28, 32)"
| "clueRanges Hard = Some (22, 26)"
| "clueRanges Superhard = Some (17, 20)"
| "clueRanges Other = None"

text \<open>The result \<^verbatim>\<open>{ puzzle, solution }\<close> is the pair of the two grids, in this order.\<close>

type_synonym puzzleData = "grid \<times> grid"

text \<open>The positions grouped by box: \<^verbatim>\<open>boxes[boxIndex].push([r, c])\<close> over all cells.\<close>

definition boxes :: "(nat \<times> nat) list list" where
  "boxes =
     foldl (\<lambda>bs (r, c). let boxIndex = (r div 3) * 3 + c div 3
                         in bs[boxIndex := bs ! boxIndex @ [(r, c)]])
       (replicate 9 []) allCells"

text \<open>
  \<^verbatim>\<open>boxes.forEach(box => this.shuffleArray(box))\<close>: each call shuffles a copy and its
  result is dropped; what remains of the calls is the randomness they used.
\<close>

fun shuffleEach :: "'a list list \<Rightarrow> rng \<Rightarrow> rng" where
  "shuffleEach [] rnd = rnd"
| "shuffleEach (box # rest) rnd = (case shuffleArray box rnd of (shuffled, rnd') \<Rightarrow> shuffleEach rest rnd')"

text \<open>The removal queue \<^verbatim>\<open>positions\<close>: round \<open>i\<close> takes the \<open>i\<close>-th position of each box, in \<open>boxOrder\<close>.\<close>

definition removalQueue :: "(nat \<times> nat) list list \<Rightarrow> nat list \<Rightarrow> (nat \<times> nat) list" where
  "removalQueue bs boxOrder =
     [bs ! boxIndex ! i. i \<leftarrow> [0..<9], boxIndex \<leftarrow> boxOrder, i < length (bs ! boxIndex)]"

text \<open>The removal loop \<^verbatim>\<open>for (const [row, col] of positions)\<close>, with \<open>removed\<close> so far.\<close>

fun removeCells :: "difficulty \<Rightarrow> nat \<Rightarrow> (nat \<times> nat) list \<Rightarrow> grid \<Rightarrow> nat \<Rightarrow> grid" where
  "removeCells difficulty cellsToRemove [] puzzle removed = puzzle"
| "removeCells difficulty cellsToRemove ((row, col) # positions) puzzle removed =
     (if removed \<ge> cellsToRemove then puzzle
      else
        let backup = puzzle ! row ! col;
            puzzle1 = setCell puzzle row col 0
        in if (difficulty = Hard \<or> difficulty = Superhard) \<and> \<not> hasUniqueSolution puzzle1
           then removeCells difficulty cellsToRemove positions (setCell puzzle1 row col backup) removed
           else removeCells difficulty cellsToRemove positions puzzle1 (removed + 1))"

text \<open>
  One round of the attempt loop of \<^verbatim>\<open>generatePuzzle\<close>, from \<^verbatim>\<open>generateSolution()\<close> to the
  final \<^verbatim>\<open>isValidGrid(puzzle, false)\<close>, whose verdict is returned with the pair.
\<close>

definition generateAttempt :: "difficulty \<Rightarrow> rng \<Rightarrow> (puzzleData \<times> bool \<times> rng) option" where
  "generateAttempt difficulty rnd =
     (case generateSolution 10 rnd of
        None \<Rightarrow> None
      | Some (solution, rnd1) \<Rightarrow>
          let puzzle = solution;
              range = (case clueRanges difficulty of Some r \<Rightarrow> r | None \<Rightarrow> the (clueRanges Easy))
          in case mathRandom rnd1 of (u, rnd2) \<Rightarrow>
          let targetClues = nat \<lfloor>u * real (snd range - fst range + 1)\<rfloor> + fst range;
              cellsToRemove = 81 - targetClues;
              rnd3 = shuffleEach boxes rnd2
          in case shuffleArray [0, 1, 2, 3, 4, 5, 6, 7, 8] rnd3 of (boxOrder, rnd4) \<Rightarrow>
          let positions = removalQueue boxes boxOrder;
              puzzle' = removeCells difficulty cellsToRemove positions puzzle 0
          in Some ((puzzle', solution), isValidGrid puzzle' False, rnd4))"

function generatePuzzleLoop ::
  "difficulty \<Rightarrow> nat \<Rightarrow> nat \<Rightarrow> rng \<Rightarrow> (puzzleData option \<times> rng) option" where
  "generatePuzzleLoop difficulty attempt maxAttempts rnd =
     (if attempt < maxAttempts then
        (case generateAttempt difficulty rnd of
           None \<Rightarrow> None
         | Some (result, valid, rnd') \<Rightarrow>
             if valid then Some (Some result, rnd')
             else generatePuzzleLoop difficulty (attempt + 1) maxAttempts rnd')
      else Some (None, rnd))"
  by pat_completeness auto

termination generatePuzzleLoop
  by (relation "measure (\<lambda>(difficulty, attempt, maxAttempts, rnd). maxAttempts - attempt)") auto

declare generatePuzzleLoop.simps [simp del]

partial_function (option) generatePuzzle ::
  "difficulty \<Rightarrow> nat \<Rightarrow> rng \<Rightarrow> (puzzleData \<times> rng) option" where
  "generatePuzzle difficulty maxAttempts rnd =
     (case generatePuzzleLoop difficulty 0 maxAttempts rnd of
        None \<Rightarrow> None
      | Some (Some result, rnd') \<Rightarrow> Some (result, rnd')
      | Some (None, rnd') \<Rightarrow> generatePuzzle difficulty maxAttempts rnd')"

section \<open>Arrays as objects: the shuffle on a store\<close>

text \<open>
  Whether \<^verbatim>\<open>shuffleArray\<close> changes its argument is a question about array objects, so
  here arrays live in a store: a list of arrays, an array reference being its index.
  \<^verbatim>\<open>[...array]\<close> allocates a new array at the end of the store; the swaps write to the
  array that \<open>shuffled\<close> refers to. \<open>shuffleArrayRef\<close> returns the new reference, the
  store and the rest of the random source.
\<close>

type_synonym 'a store = "'a list list"

fun shuffleLoopRef :: "nat \<Rightarrow> nat \<Rightarrow> 'a store \<Rightarrow> rng \<Rightarrow> 'a store \<times> rng" where
  "shuffleLoopRef i shuffled store rnd =
     (if i > 0 then
        (case mathRandom rnd of (u, rnd') \<Rightarrow>
           let j = nat \<lfloor>u * real (i + 1)\<rfloor>;
               a = store ! shuffled
           in shuffleLoopRef (i - 1) shuffled (store[shuffled := a[i := a ! j, j := a ! i]]) rnd')
      else (store, rnd))"

declare shuffleLoopRef.simps [simp del]

definition shuffleArrayRef :: "'a store \<Rightarrow> nat \<Rightarrow> rng \<Rightarrow> nat \<times> 'a store \<times> rng" where
  "shuffleArrayRef store array rnd =
     (let shuffled = length store;
          store1 = store @ [store ! array]
      in case shuffleLoopRef (length (store1 ! shuffled) - 1) shuffled store1 rnd of
           (store2, rnd') \<Rightarrow> (shuffled, store2, rnd'))"

text \<open>
  \<^verbatim>\<open>boxes.forEach(box => this.shuffleArray(box))\<close> on the store: the arrow function's
  value, the new reference, is dropped by \<^verbatim>\<open>forEach\<close>.
\<close>

fun forEachShuffle :: "nat list \<Rightarrow> 'a store \<Rightarrow> rng \<Rightarrow> 'a store \<times> rng" where
  "forEachShuffle [] store rnd = (store, rnd)"
| "forEachShuffle (box # rest) store rnd =
     (case shuffleArrayRef store box rnd of
        (shuffled, store', rnd') \<Rightarrow> forEachShuffle rest store' rnd')"

lemma shuffleLoopRef_pure:
  "shuffled < length store \<Longrightarrow>
     shuffleLoopRef i shuffled store rnd =
       (store[shuffled := fst (shuffleLoop i (store ! shuffled) rnd)],
        snd (shuffleLoop i (store ! shuffled) rnd))"
proof (induction i shuffled store rnd rule: shuffleLoopRef.induct)
  case (1 i shuffled store rnd)
  show ?case
  proof (cases "i > 0")
    case False
    then show ?thesis
      by (subst shuffleLoopRef.simps, subst (1 2) shuffleLoop.simps) simp
  next
    case True
    obtain u rnd' where r: "mathRandom rnd = (u, rnd')" by (cases "mathRandom rnd")
    define j where "j = nat \<lfloor>u * real (i + 1)\<rfloor>"
    define a where "a = store ! shuffled"
    let ?store = "store[shuffled := a[i := a ! j, j := a ! i]]"
    have l: "shuffled < length ?store" using 1(2) by simp
    have "shuffleLoopRef i shuffled store rnd = shuffleLoopRef (i - 1) shuffled ?store rnd'"
      using True r by (subst shuffleLoopRef.simps) (simp add: j_def a_def Let_def)
    also have "\<dots> = (?store[shuffled := fst (shuffleLoop (i - 1) (?store ! shuffled) rnd')],
        snd (shuffleLoop (i - 1) (?store ! shuffled) rnd'))"
      using 1(1) [OF True r [symmetric] j_def a_def l] .
    also have "?store ! shuffled = a[i := a ! j, j := a ! i]" using 1(2) by simp
    also have "shuffleLoop (i - 1) (a[i := a ! j, j := a ! i]) rnd' = shuffleLoop i a rnd"
      using True r by (subst (2) shuffleLoop.simps) (simp add: j_def Let_def)
    finally show ?thesis by (simp add: a_def)
  qed
qed

lemma shuffleArrayRef_pure:
  "shuffleArrayRef store array rnd =
     (length store, store @ [fst (shuffleArray (store ! array) rnd)],
      snd (shuffleArray (store ! array) rnd))"
  by (simp add: shuffleArrayRef_def shuffleLoopRef_pure shuffleArray_def Let_def)

lemma forEachShuffle_pure:
  "set boxRefs \<subseteq> {..<length store} \<Longrightarrow>
     (\<exists>new. fst (forEachShuffle boxRefs store rnd) = store @ new) \<and>
     snd (forEachShuffle boxRefs store rnd) = shuffleEach (map (\<lambda>b. store ! b) boxRefs) rnd"
proof (induction boxRefs arbitrary: store rnd)
  case Nil
  then show ?case by simp
next
  case (Cons box rest)
  let ?s = "fst (shuffleArray (store ! box) rnd)" and ?rnd = "snd (shuffleArray (store ! box) rnd)"
  have sub: "set rest \<subseteq> {..<length (store @ [?s])}" using Cons.prems by auto
  have e: "forEachShuffle (box # rest) store rnd = forEachShuffle rest (store @ [?s]) ?rnd"
    by (simp add: shuffleArrayRef_pure)
  have m: "map (\<lambda>b. (store @ [?s]) ! b) rest = map (\<lambda>b. store ! b) rest"
    using Cons.prems by (auto simp: nth_append)
  obtain new where n: "fst (forEachShuffle rest (store @ [?s]) ?rnd) = (store @ [?s]) @ new"
    using Cons.IH [OF sub, of ?rnd] by blast
  have "snd (forEachShuffle rest (store @ [?s]) ?rnd) = shuffleEach (map (\<lambda>b. store ! b) rest) ?rnd"
    using Cons.IH [OF sub, of ?rnd] m by simp
  then show ?case using e n by (simp add: case_prod_beta)
qed

section \<open>The hint engine\<close>

text \<open>
  \<^verbatim>\<open>src/js/hints.js\<close>. The game state holds the four 9x9 arrays the engine reads. A hint is
  the record \<^verbatim>\<open>{row, col, number, technique, explanation}\<close>; the explanation is display
  text assembled from the same facts and is left out of the model. A candidate set is a
  JavaScript \<^verbatim>\<open>Set\<close>, which keeps insertion order: a list without duplicates.
\<close>

record gameState =
  puzzle :: grid
  userEntries :: grid
  official :: "bool list list"
  solution :: grid

record hint =
  hintRow :: nat
  hintCol :: nat
  hintNumber :: int
  hintTechnique :: string

text \<open>
  \<^verbatim>\<open>src/js/game.js\<close>, \<^verbatim>\<open>startNewGame\<close>: the only place that assigns \<^verbatim>\<open>state.puzzle\<close>,
  \<^verbatim>\<open>state.solution\<close> and \<^verbatim>\<open>state.official\<close>. The user entries start empty, and
  \<^verbatim>\<open>official = puzzle.map(row => row.map(cell => cell !== 0))\<close>. Later moves write
  \<^verbatim>\<open>userEntries\<close> only, so every state the hint engine is called on has its official
  cells determined by its puzzle in this way.
\<close>

definition startNewGame :: "puzzleData \<Rightarrow> gameState" where
  "startNewGame puzzleData =
     \<lparr>puzzle = fst puzzleData, userEntries = emptyGrid,
      official = map (map (\<lambda>cell. cell \<noteq> 0)) (fst puzzleData),
      solution = snd puzzleData\<rparr>"

definition buildCurrentGrid :: "gameState \<Rightarrow> grid" where
  "buildCurrentGrid state =
     map (\<lambda>r. map (\<lambda>c.
            if official state ! r ! c then puzzle state ! r ! c
            else if userEntries state ! r ! c \<noteq> 0 then userEntries state ! r ! c
            else 0) [0..<9]) [0..<9]"

definition getCandidatesForCell :: "grid \<Rightarrow> nat \<Rightarrow> nat \<Rightarrow> int list" where
  "getCandidatesForCell grid r c =
     (let candidates = [1, 2, 3, 4, 5, 6, 7, 8, 9];
          candidates = foldl (\<lambda>s c'. removeAll (grid ! r ! c') s) candidates [0..<9];
          candidates = foldl (\<lambda>s r'. removeAll (grid ! r' ! c) s) candidates [0..<9];
          boxRow = (r div 3) * 3;
          boxCol = (c div 3) * 3
      in foldl (\<lambda>s (r', c'). removeAll (grid ! r' ! c') s) candidates
           [(r', c'). r' \<leftarrow> [boxRow..<boxRow + 3], c' \<leftarrow> [boxCol..<boxCol + 3]])"

definition calculateCandidates :: "grid \<Rightarrow> int list list list" where
  "calculateCandidates grid =
     map (\<lambda>r. map (\<lambda>c. if grid ! r ! c \<noteq> 0 then [] else getCandidatesForCell grid r c) [0..<9])
       [0..<9]"

text \<open>
  \<^verbatim>\<open>findNakedSingle\<close>: the loops \<^verbatim>\<open>for row, for col\<close> over the cells still to visit;
  \<^verbatim>\<open>continue\<close> is the recursive call on the rest.
\<close>

fun nakedSingleLoop ::
  "grid \<Rightarrow> int list list list \<Rightarrow> gameState \<Rightarrow> (nat \<times> nat) list \<Rightarrow> hint option" where
  "nakedSingleLoop grid candidates state [] = None"
| "nakedSingleLoop grid candidates state ((r, c) # rest) =
     (if grid ! r ! c = 0 \<and> length (candidates ! r ! c) = 1 then
        (let num = hd (candidates ! r ! c) in
         if solution state ! r ! c \<noteq> num then nakedSingleLoop grid candidates state rest
         else Some \<lparr>hintRow = r, hintCol = c, hintNumber = num, hintTechnique = ''Naked Single''\<rparr>)
      else nakedSingleLoop grid candidates state rest)"

definition findNakedSingle :: "grid \<Rightarrow> int list list list \<Rightarrow> gameState \<Rightarrow> hint option" where
  "findNakedSingle grid candidates state = nakedSingleLoop grid candidates state allCells"

text \<open>\<^verbatim>\<open>findHiddenSingleInRow\<close>: the loops \<^verbatim>\<open>for row, for num\<close> over the pairs still to visit.\<close>

fun hiddenRowLoop ::
  "grid \<Rightarrow> int list list list \<Rightarrow> gameState \<Rightarrow> (nat \<times> int) list \<Rightarrow> hint option" where
  "hiddenRowLoop grid candidates state [] = None"
| "hiddenRowLoop grid candidates state ((r, num) # rest) =
     (let alreadyInRow = list_ex (\<lambda>c. grid ! r ! c = num) [0..<9] in
      if alreadyInRow then hiddenRowLoop grid candidates state rest
      else
        let possibleCols = filter (\<lambda>c. List.member (candidates ! r ! c) num) [0..<9] in
        if length possibleCols = 1 then
          (let c = possibleCols ! 0 in
           if length (candidates ! r ! c) = 1 then hiddenRowLoop grid candidates state rest
           else if solution state ! r ! c \<noteq> num then hiddenRowLoop grid candidates state rest
           else Some \<lparr>hintRow = r, hintCol = c, hintNumber = num,
                      hintTechnique = ''Hidden Single (Row)''\<rparr>)
        else hiddenRowLoop grid candidates state rest)"

definition findHiddenSingleInRow :: "grid \<Rightarrow> int list list list \<Rightarrow> gameState \<Rightarrow> hint option" where
  "findHiddenSingleInRow grid candidates state =
     hiddenRowLoop grid candidates state [(r, num). r \<leftarrow> [0..<9], num \<leftarrow> [1..9]]"

text \<open>\<^verbatim>\<open>findHiddenSingleInColumn\<close>: the loops \<^verbatim>\<open>for col, for num\<close>.\<close>

fun hiddenColumnLoop ::
  "grid \<Rightarrow> int list list list \<Rightarrow> gameState \<Rightarrow> (nat \<times> int) list \<Rightarrow> hint option" where
  "hiddenColumnLoop grid candidates state [] = None"
| "hiddenColumnLoop grid candidates state ((c, num) # rest) =
     (let alreadyInCol = list_ex (\<lambda>r. grid ! r ! c = num) [0..<9] in
      if alreadyInCol then hiddenColumnLoop grid candidates state rest
      else
        let possibleRows = filter (\<lambda>r. List.member (candidates ! r ! c) num) [0..<9] in
        if length possibleRows = 1 then
          (let r = possibleRows ! 0 in
           if length (candidates ! r ! c) = 1 then hiddenColumnLoop grid candidates state rest
           else if solution state ! r ! c \<noteq> num then hiddenColumnLoop grid candidates state rest
           else Some \<lparr>hintRow = r, hintCol = c, hintNumber = num,
                      hintTechnique = ''Hidden Single (Column)''\<rparr>)
        else hiddenColumnLoop grid candidates state rest)"

definition findHiddenSingleInColumn ::
  "grid \<Rightarrow> int list list list \<Rightarrow> gameState \<Rightarrow> hint option" where
  "findHiddenSingleInColumn grid candidates state =
     hiddenColumnLoop grid candidates state [(c, num). c \<leftarrow> [0..<9], num \<leftarrow> [1..9]]"

text \<open>\<^verbatim>\<open>findHiddenSingleInBox\<close>: the loops \<^verbatim>\<open>for boxRow, for boxCol, for num\<close>.\<close>

fun hiddenBoxLoop ::
  "grid \<Rightarrow> int list list list \<Rightarrow> gameState \<Rightarrow> (nat \<times> nat \<times> int) list \<Rightarrow> hint option" where
  "hiddenBoxLoop grid candidates state [] = None"
| "hiddenBoxLoop grid candidates state ((boxRow, boxCol, num) # rest) =
     (let startRow = boxRow * 3;
          startCol = boxCol * 3;
          boxCells = [(r, c). r \<leftarrow> [startRow..<startRow + 3], c \<leftarrow> [startCol..<startCol + 3]];
          alreadyInBox = list_ex (\<lambda>(r, c). grid ! r ! c = num) boxCells
      in
      if alreadyInBox then hiddenBoxLoop grid candidates state rest
      else
        let possibleCells = filter (\<lambda>(r, c). List.member (candidates ! r ! c) num) boxCells in
        if length possibleCells = 1 then
          (case possibleCells ! 0 of (r, c) \<Rightarrow>
             if length (candidates ! r ! c) = 1 then hiddenBoxLoop grid candidates state rest
             else if solution state ! r ! c \<noteq> num then hiddenBoxLoop grid candidates state rest
             else Some \<lparr>hintRow = r, hintCol = c, hintNumber = num,
                        hintTechnique = ''Hidden Single (Box)''\<rparr>)
        else hiddenBoxLoop grid candidates state rest)"

definition findHiddenSingleInBox :: "grid \<Rightarrow> int list list list \<Rightarrow> gameState \<Rightarrow> hint option" where
  "findHiddenSingleInBox grid candidates state =
     hiddenBoxLoop grid candidates state
       [(boxRow, boxCol, num). boxRow \<leftarrow> [0..<3], boxCol \<leftarrow> [0..<3], num \<leftarrow> [1..9]]"

text \<open>\<^verbatim>\<open>findFallbackHint\<close>: the first cell that is not official and has no user entry.\<close>

fun fallbackLoop :: "gameState \<Rightarrow> (nat \<times> nat) list \<Rightarrow> hint option" where
  "fallbackLoop state [] = None"
| "fallbackLoop state ((r, c) # rest) =
     (if \<not> official state ! r ! c \<and> userEntries state ! r ! c = 0 then
        Some \<lparr>hintRow = r, hintCol = c, hintNumber = solution state ! r ! c,
               hintTechnique = ''Process of Elimination''\<rparr>
      else fallbackLoop state rest)"

definition findFallbackHint :: "gameState \<Rightarrow> hint option" where
  "findFallbackHint state = fallbackLoop state allCells"

definition findHint :: "gameState \<Rightarrow> hint option" where
  "findHint state =
     (let grid = buildCurrentGrid state;
          candidates = calculateCandidates grid
      in case findNakedSingle grid candidates state of
           Some h \<Rightarrow> Some h
         | None \<Rightarrow>
        (case findHiddenSingleInRow grid candidates state of
           Some h \<Rightarrow> Some h
         | None \<Rightarrow>
        (case findHiddenSingleInColumn grid candidates state of
           Some h \<Rightarrow> Some h
         | None \<Rightarrow>
        (case findHiddenSingleInBox grid candidates state of
           Some h \<Rightarrow> Some h
         | None \<Rightarrow> findFallbackHint state))))"

section \<open>What the validity checks say\<close>

text \<open>
  Two cells are in the same unit when they share a row, a column or a 3x3 box. A grid is
  duplicate-free when no filled cell has its value in another cell of one of its units;
  its values are in range when every cell holds 0..9.
\<close>

definition sameUnit :: "nat \<Rightarrow> nat \<Rightarrow> nat \<Rightarrow> nat \<Rightarrow> bool" where
  "sameUnit r c r' c' = (r = r' \<or> c = c' \<or> (r div 3 = r' div 3 \<and> c div 3 = c' div 3))"

lemma validateValues_iff:
  "validateValues vs seen \<longleftrightarrow>
     (\<forall>v\<in>set vs. 0 \<le> v \<and> v \<le> 9) \<and> distinct (filter (\<lambda>v. v \<noteq> 0) vs)
       \<and> (\<forall>v\<in>set vs. v \<noteq> 0 \<longrightarrow> v \<notin> set seen)"
  by (induction vs arbitrary: seen) auto

lemma distinct_filter_map:
  "distinct ps \<Longrightarrow>
     distinct (filter (\<lambda>v. v \<noteq> (0::int)) (map f ps)) \<longleftrightarrow>
       (\<forall>p\<in>set ps. \<forall>q\<in>set ps. p \<noteq> q \<and> f p \<noteq> 0 \<longrightarrow> f p \<noteq> f q)"
proof (induction ps)
  case Nil
  show ?case by simp
next
  case (Cons p ps)
  then have IH: "distinct (filter (\<lambda>v. v \<noteq> 0) (map f ps)) \<longleftrightarrow>
       (\<forall>p\<in>set ps. \<forall>q\<in>set ps. p \<noteq> q \<and> f p \<noteq> 0 \<longrightarrow> f p \<noteq> f q)"
    and p: "p \<notin> set ps" by simp_all
  show ?case
  proof (cases "f p = 0")
    case True
    then show ?thesis using IH p by auto
  next
    case False
    then show ?thesis using IH p by (auto simp: image_iff)
  qed
qed

lemma validate_region:
  assumes "distinct ps"
  shows "validateValues (map f ps) [] \<longleftrightarrow>
     (\<forall>p\<in>set ps. 0 \<le> f p \<and> f p \<le> 9) \<and>
     (\<forall>p\<in>set ps. \<forall>q\<in>set ps. p \<noteq> q \<and> f p \<noteq> 0 \<longrightarrow> f p \<noteq> f q)"
  by (simp add: validateValues_iff distinct_filter_map [OF assms])

lemma ball_upt: "(\<forall>x\<in>set [0..<n]. P x) \<longleftrightarrow> (\<forall>x<n. P x)"
  by auto

lemma validateRow_iff:
  "validateRow g r \<longleftrightarrow>
     (\<forall>c<9. 0 \<le> g ! r ! c \<and> g ! r ! c \<le> 9) \<and>
     (\<forall>c<9. \<forall>c'<9. c \<noteq> c' \<and> g ! r ! c \<noteq> 0 \<longrightarrow> g ! r ! c \<noteq> g ! r ! c')"
  unfolding validateRow_def by (simp only: validate_region [OF distinct_upt] ball_upt)

lemma validateColumn_iff:
  "validateColumn g c \<longleftrightarrow>
     (\<forall>r<9. 0 \<le> g ! r ! c \<and> g ! r ! c \<le> 9) \<and>
     (\<forall>r<9. \<forall>r'<9. r \<noteq> r' \<and> g ! r ! c \<noteq> 0 \<longrightarrow> g ! r ! c \<noteq> g ! r' ! c)"
  unfolding validateColumn_def by (simp only: validate_region [OF distinct_upt] ball_upt)

lemma concat_map_product:
  "concat (map (\<lambda>r. map (\<lambda>c. f r c) ys) xs) = map (\<lambda>(r, c). f r c) (List.product xs ys)"
  by (induction xs) (simp_all add: comp_def)

lemma validateSubgrid_iff:
  "validateSubgrid g br bc \<longleftrightarrow>
     (\<forall>p\<in>{br..<br + 3} \<times> {bc..<bc + 3}. 0 \<le> g ! fst p ! snd p \<and> g ! fst p ! snd p \<le> 9) \<and>
     (\<forall>p\<in>{br..<br + 3} \<times> {bc..<bc + 3}. \<forall>q\<in>{br..<br + 3} \<times> {bc..<bc + 3}.
        p \<noteq> q \<and> g ! fst p ! snd p \<noteq> 0 \<longrightarrow> g ! fst p ! snd p \<noteq> g ! fst q ! snd q)"
proof -
  have d: "distinct (List.product [br..<br + 3] [bc..<bc + 3])" by (simp add: distinct_product)
  show ?thesis
    unfolding validateSubgrid_def concat_map_product
    by (simp only: validate_region [OF d] set_product set_upt case_prod_beta)
qed

definition valuesOk :: "grid \<Rightarrow> bool" where
  "valuesOk g = (\<forall>r<9. \<forall>c<9. 0 \<le> g ! r ! c \<and> g ! r ! c \<le> 9)"

definition duplicateFree :: "grid \<Rightarrow> bool" where
  "duplicateFree g =
     (\<forall>r<9. \<forall>c<9. \<forall>r'<9. \<forall>c'<9.
        sameUnit r c r' c' \<and> (r, c) \<noteq> (r', c') \<and> g ! r ! c \<noteq> 0 \<longrightarrow> g ! r ! c \<noteq> g ! r' ! c')"

definition noZeros :: "grid \<Rightarrow> bool" where
  "noZeros g = (\<forall>r<9. \<forall>c<9. g ! r ! c \<noteq> 0)"

lemma wf_grid_iff: "wf_grid g \<longleftrightarrow> length g = 9 \<and> (\<forall>r<9. length (g ! r) = 9)"
  by (auto simp: wf_grid_def list_all_length)

lemma wf_inRange: "wf_grid g \<Longrightarrow> r < 9 \<Longrightarrow> c < 9 \<Longrightarrow> inRange g r c"
  by (simp add: wf_grid_iff inRange_def)

lemma isValidGrid_unfold:
  "isValidGrid g rc \<longleftrightarrow>
     wf_grid g \<and> (rc \<longrightarrow> noZeros g) \<and> (\<forall>r<9. validateRow g r) \<and> (\<forall>c<9. validateColumn g c) \<and>
     (\<forall>br\<in>{0, 3, 6}. \<forall>bc\<in>{0, 3, 6}. validateSubgrid g br bc)"
  unfolding isValidGrid_def wf_grid_iff noZeros_def list_ex_iff
  by (simp only: set_upt atLeast0LessThan list.set) (simp, blast)

lemma in_box: "(r::nat) < 9 \<Longrightarrow> r \<in> {3 * (r div 3)..<3 * (r div 3) + 3}"
  by simp

lemma in_box_same: "(r::nat) div 3 = r' div 3 \<Longrightarrow> r' \<in> {3 * (r div 3)..<3 * (r div 3) + 3}"
  by simp

lemma div3_lt9: "(r::nat) < 9 \<longleftrightarrow> r div 3 < 3"
  by (simp add: div_less_iff_less_mult)

lemma box_start: "(r::nat) < 9 \<Longrightarrow> 3 * (r div 3) \<in> {0, 3, 6::nat}"
proof -
  assume "r < 9"
  then have "r div 3 < 3" by (simp add: div3_lt9)
  then have "r div 3 = 0 \<or> r div 3 = 1 \<or> r div 3 = 2" by linarith
  then show ?thesis by auto
qed

lemma box_member: "br \<in> {0, 3, 6::nat} \<Longrightarrow> r \<in> {br..<br + 3} \<Longrightarrow> r < 9 \<and> r div 3 = br div 3"
  by auto


lemma isValidGrid_rows: "isValidGrid g rc \<Longrightarrow> r < 9 \<Longrightarrow> validateRow g r"
  by (simp add: isValidGrid_unfold)

lemma isValidGrid_cols: "isValidGrid g rc \<Longrightarrow> c < 9 \<Longrightarrow> validateColumn g c"
  by (simp add: isValidGrid_unfold)

lemma isValidGrid_boxes:
  "isValidGrid g rc \<Longrightarrow> r < 9 \<Longrightarrow> c < 9 \<Longrightarrow> validateSubgrid g (3 * (r div 3)) (3 * (c div 3))"
  using box_start [of r] box_start [of c] by (simp only: isValidGrid_unfold)

lemma isValidGrid_wf: "isValidGrid g rc \<Longrightarrow> wf_grid g"
  by (simp add: isValidGrid_unfold)

lemma isValidGrid_noZeros: "isValidGrid g True \<Longrightarrow> noZeros g"
  by (simp add: isValidGrid_unfold)

lemma isValidGrid_valuesOk: 
  assumes "isValidGrid g rc" shows "valuesOk g"
  unfolding valuesOk_def
proof (intro allI impI)
  fix r c :: nat assume "r < 9" "c < 9"
  then show "0 \<le> g ! r ! c \<and> g ! r ! c \<le> 9"
    using isValidGrid_rows [OF assms, of r] by (simp add: validateRow_iff)
qed

lemma isValidGrid_duplicateFree:
  assumes "isValidGrid g rc" shows "duplicateFree g"
  unfolding duplicateFree_def
proof (intro allI impI, elim conjE)
  fix r c r' c' :: nat
  assume b: "r < 9" "c < 9" "r' < 9" "c' < 9"
    and su: "sameUnit r c r' c'" and ne: "(r, c) \<noteq> (r', c')" and nz: "g ! r ! c \<noteq> 0"
  consider (row) "r = r'" "c \<noteq> c'" | (col) "c = c'" "r \<noteq> r'"
    | (box) "r div 3 = r' div 3" "c div 3 = c' div 3"
    using su ne unfolding sameUnit_def by auto
  then show "g ! r ! c \<noteq> g ! r' ! c'"
  proof cases
    case row
    have "\<forall>c<9. \<forall>c'<9. c \<noteq> c' \<and> g ! r ! c \<noteq> 0 \<longrightarrow> g ! r ! c \<noteq> g ! r ! c'"
      using isValidGrid_rows [OF assms b(1), unfolded validateRow_iff] by (rule conjunct2)
    from this [rule_format, of c c'] b nz row show ?thesis by simp
  next
    case col
    have "\<forall>r<9. \<forall>r'<9. r \<noteq> r' \<and> g ! r ! c \<noteq> 0 \<longrightarrow> g ! r ! c \<noteq> g ! r' ! c"
      using isValidGrid_cols [OF assms b(2), unfolded validateColumn_iff] by (rule conjunct2)
    from this [rule_format, of r r'] b nz col show ?thesis by simp
  next
    case box
    let ?B = "{3 * (r div 3)..<3 * (r div 3) + 3} \<times> {3 * (c div 3)..<3 * (c div 3) + 3}"
    have p: "(r, c) \<in> ?B" using in_box [OF b(1)] in_box [OF b(2)] by blast
    have q: "(r', c') \<in> ?B" using in_box_same [OF box(1)] in_box_same [OF box(2)] by blast
    have "\<forall>p\<in>?B. \<forall>q\<in>?B. p \<noteq> q \<and> g ! fst p ! snd p \<noteq> 0
        \<longrightarrow> g ! fst p ! snd p \<noteq> g ! fst q ! snd q"
      using isValidGrid_boxes [OF assms b(1) b(2), unfolded validateSubgrid_iff] by (rule conjunct2)
    from this [rule_format, OF p q] ne nz show ?thesis by simp
  qed
qed

lemma isValidGrid_intro:
  assumes wf: "wf_grid g" and nz: "rc \<longrightarrow> noZeros g" and v: "valuesOk g" and d: "duplicateFree g"
  shows "isValidGrid g rc"
proof -
  have v: "0 \<le> g ! r ! c \<and> g ! r ! c \<le> 9" if "r < 9" "c < 9" for r c
    using v that unfolding valuesOk_def by blast
  have d: "g ! r ! c \<noteq> g ! r' ! c'"
    if "r < 9" "c < 9" "r' < 9" "c' < 9" "sameUnit r c r' c'" "(r, c) \<noteq> (r', c')" "g ! r ! c \<noteq> 0"
    for r c r' c'
    using d [unfolded duplicateFree_def, rule_format, of r c r' c'] that by blast
  have rows: "validateRow g r" if "r < 9" for r
    unfolding validateRow_iff using v [OF that] d [OF that _ that] by (simp add: sameUnit_def)
  have cols: "validateColumn g c" if "c < 9" for c
    unfolding validateColumn_iff using v [OF _ that] d [OF _ that _ that] by (simp add: sameUnit_def)
  have boxs: "validateSubgrid g br bc" if br: "br \<in> {0, 3, 6}" and bc: "bc \<in> {0, 3, 6}" for br bc
    unfolding validateSubgrid_iff
  proof ((rule conjI; intro ballI impI), goal_cases)
    case (1 p)
    obtain r c where p: "p = (r, c)" by (cases p)
    have m: "r \<in> {br..<br + 3}" "c \<in> {bc..<bc + 3}" using 1 p by simp_all
    have "r < 9" "c < 9" using box_member [OF br m(1)] box_member [OF bc m(2)] by simp_all
    then show ?case using v p by simp
  next
    case (2 p q)
    obtain r c where p: "p = (r, c)" by (cases p)
    obtain r' c' where q: "q = (r', c')" by (cases q)
    have m: "r \<in> {br..<br + 3}" "c \<in> {bc..<bc + 3}" "r' \<in> {br..<br + 3}" "c' \<in> {bc..<bc + 3}"
      using 2(1,2) p q by simp_all
    have "r < 9 \<and> r div 3 = br div 3" "c < 9 \<and> c div 3 = bc div 3"
      "r' < 9 \<and> r' div 3 = br div 3" "c' < 9 \<and> c' div 3 = bc div 3"
      using box_member [OF br m(1)] box_member [OF bc m(2)] box_member [OF br m(3)]
        box_member [OF bc m(4)] by simp_all
    then show ?case using d [of r c r' c'] 2(3) p q by (simp add: sameUnit_def)
  qed
  show ?thesis unfolding isValidGrid_unfold using wf nz rows cols boxs by simp
qed

lemma isValidGrid_iff:
  "isValidGrid g rc \<longleftrightarrow> wf_grid g \<and> (rc \<longrightarrow> noZeros g) \<and> valuesOk g \<and> duplicateFree g"
proof
  assume v: "isValidGrid g rc"
  have "rc \<longrightarrow> noZeros g" using v isValidGrid_noZeros by (cases rc) simp_all
  then show "wf_grid g \<and> (rc \<longrightarrow> noZeros g) \<and> valuesOk g \<and> duplicateFree g"
    using isValidGrid_wf [OF v] isValidGrid_valuesOk [OF v] isValidGrid_duplicateFree [OF v] by simp
next
  assume "wf_grid g \<and> (rc \<longrightarrow> noZeros g) \<and> valuesOk g \<and> duplicateFree g"
  then show "isValidGrid g rc" by (simp add: isValidGrid_intro)
qed

section \<open>Completions of a grid\<close>

text \<open>
  A solution is valid when it is a 9x9 grid of values 1..9 with no value twice in a row,
  a column or a 3x3 box. A grid \<open>s\<close> agrees with \<open>g\<close> when every filled cell of \<open>g\<close> has
  the same value in \<open>s\<close>. A valid completion of \<open>g\<close> is a valid solution that agrees with
  \<open>g\<close>. These do not refer to the code; \<open>validSolution_iff\<close> shows that
  \<^verbatim>\<open>isValidGrid(s, true)\<close> decides the first.
\<close>

definition validSolution :: "grid \<Rightarrow> bool" where
  "validSolution s =
     (wf_grid s \<and> (\<forall>r<9. \<forall>c<9. 1 \<le> s ! r ! c \<and> s ! r ! c \<le> 9) \<and> duplicateFree s)"

definition agrees :: "grid \<Rightarrow> grid \<Rightarrow> bool" where
  "agrees g s = list_all (\<lambda>(r, c). g ! r ! c = 0 \<or> s ! r ! c = g ! r ! c) allCells"

definition completion :: "grid \<Rightarrow> grid \<Rightarrow> bool" where
  "completion g s = (validSolution s \<and> agrees g s)"

lemma validSolution_iff: "validSolution s \<longleftrightarrow> isValidGrid s True"
proof -
  have "(\<forall>r<9. \<forall>c<9. 1 \<le> s ! r ! c \<and> s ! r ! c \<le> 9) \<longleftrightarrow> noZeros s \<and> valuesOk s"
    unfolding noZeros_def valuesOk_def
  proof (intro iffI conjI allI impI)
    fix r c :: nat
    assume a: "\<forall>r<9. \<forall>c<9. 1 \<le> s ! r ! c \<and> s ! r ! c \<le> 9" and b: "r < 9" "c < 9"
    show "s ! r ! c \<noteq> 0" using a [rule_format, OF b] by simp
    show "0 \<le> s ! r ! c" using a [rule_format, OF b] by simp
    show "s ! r ! c \<le> 9" using a [rule_format, OF b] by simp
  next
    fix r c :: nat
    assume a: "(\<forall>r<9. \<forall>c<9. s ! r ! c \<noteq> 0) \<and> (\<forall>r<9. \<forall>c<9. 0 \<le> s ! r ! c \<and> s ! r ! c \<le> 9)"
      and b: "r < 9" "c < 9"
    show "1 \<le> s ! r ! c"
      using a [THEN conjunct1, rule_format, OF b] a [THEN conjunct2, rule_format, OF b] by simp
    show "s ! r ! c \<le> 9" using a [THEN conjunct2, rule_format, OF b] by simp
  qed
  then show ?thesis by (simp add: validSolution_def isValidGrid_iff)
qed

lemma completion_iff: "completion g s \<longleftrightarrow> isValidGrid s True \<and> agrees g s"
  by (simp add: completion_def validSolution_iff)

lemma set_allCells: "p \<in> set allCells \<longleftrightarrow> fst p < 9 \<and> snd p < 9"
  by (cases p) (auto simp: allCells_def image_iff)

lemma agrees_iff: "agrees g s \<longleftrightarrow> (\<forall>r<9. \<forall>c<9. g ! r ! c \<noteq> 0 \<longrightarrow> s ! r ! c = g ! r ! c)"
  by (simp add: agrees_def list_all_iff Ball_def set_allCells) blast

lemma findEmptyCell_None: "findEmptyCell g = None \<longleftrightarrow> (\<forall>r<9. \<forall>c<9. \<not> cellEmpty g (r, c))"
  by (simp add: findEmptyCell_def find_None_iff set_allCells)

lemma findEmptyCell_bounds: "findEmptyCell g = Some (r, c) \<Longrightarrow> r < 9 \<and> c < 9"
proof -
  assume "findEmptyCell g = Some (r, c)"
  then have "(r, c) \<in> set allCells"
    unfolding findEmptyCell_def find_Some_iff by (metis nth_mem)
  then show ?thesis by (simp add: set_allCells)
qed

lemma findEmptyCell_zero:
  "findEmptyCell g = Some (r, c) \<Longrightarrow> g ! r ! c = 0"
  using findEmptyCell_Some [of g r c] by (simp add: cellEmpty_def)

lemma wf_setCell: "wf_grid g \<Longrightarrow> wf_grid (setCell g r c v)"
  by (cases "r < length g") (auto simp: wf_grid_iff setCell_def nth_list_update list_update_beyond)

lemma nth_setCell:
  "wf_grid g \<Longrightarrow> r < 9 \<Longrightarrow> c < 9 \<Longrightarrow> r' < 9 \<Longrightarrow> c' < 9 \<Longrightarrow>
     setCell g r c v ! r' ! c' = (if r' = r \<and> c' = c then v else g ! r' ! c')"
  by (auto simp: wf_grid_iff setCell_def nth_list_update)

lemma sameUnit_sym: "sameUnit r c r' c' \<Longrightarrow> sameUnit r' c' r c"
  by (auto simp: sameUnit_def)

lemma member_row: "length row = 9 \<Longrightarrow> List.member row v \<longleftrightarrow> (\<exists>c<9. row ! c = v)"
  by (auto simp: in_set_conv_nth)

lemma box_range: "(\<exists>r'\<in>set [(r div 3) * 3..<(r div 3) * 3 + 3]. P r') \<longleftrightarrow> (\<exists>r'. r' div 3 = r div 3 \<and> P r')"
proof -
  have "r' \<in> set [(r div 3) * 3..<(r div 3) * 3 + 3] \<longleftrightarrow> r' div 3 = r div 3" for r'
  proof -
    have a: "r' = 3 * (r' div 3) + r' mod 3" by simp
    have b: "r' mod 3 < 3" by simp
    show ?thesis using a b by (simp del: mult_div_mod_eq div_mult_mod_eq) linarith
  qed
  then show ?thesis by blast
qed

lemma isValidPlacement_iff:
  assumes wf: "wf_grid g" and r: "r < 9" and c: "c < 9"
  shows "isValidPlacement g r c v \<longleftrightarrow> (\<forall>r'<9. \<forall>c'<9. sameUnit r c r' c' \<longrightarrow> g ! r' ! c' \<noteq> v)"
proof -
  have len: "length (g ! r) = 9" using wf r by (simp add: wf_grid_iff)
  have d: "r' div 3 = r div 3 \<Longrightarrow> r' < 9" for r' using r by (simp add: div3_lt9)
  have e: "c' div 3 = c div 3 \<Longrightarrow> c' < 9" for c' using c by (simp add: div3_lt9)
  have "isValidPlacement g r c v \<longleftrightarrow>
      \<not> (\<exists>c'<9. g ! r ! c' = v) \<and> \<not> (\<exists>r'<9. g ! r' ! c = v) \<and>
      \<not> (\<exists>r'. r' div 3 = r div 3 \<and> (\<exists>c'. c' div 3 = c div 3 \<and> g ! r' ! c' = v))"
    unfolding isValidPlacement_def Let_def member_row [OF len] list_ex_iff box_range
    by (simp only: set_upt atLeast0LessThan) auto
  also have "\<dots> \<longleftrightarrow> (\<forall>r'<9. \<forall>c'<9. sameUnit r c r' c' \<longrightarrow> g ! r' ! c' \<noteq> v)"
    (is "?A \<and> ?B \<and> ?C \<longleftrightarrow> ?R")
  proof
    assume h: "?A \<and> ?B \<and> ?C"
    show ?R
    proof (intro allI impI)
      fix r' c' assume b: "r' < 9" "c' < 9" and su: "sameUnit r c r' c'"
      from su consider "r = r'" | "c = c'" | "r div 3 = r' div 3 \<and> c div 3 = c' div 3"
        unfolding sameUnit_def by blast
      then show "g ! r' ! c' \<noteq> v"
      proof cases
        case 1
        then show ?thesis using h b by blast
      next
        case 2
        then show ?thesis using h b by blast
      next
        case 3
        then have "r' div 3 = r div 3 \<and> c' div 3 = c div 3" by simp
        then show ?thesis using h by blast
      qed
    qed
  next
    assume h: ?R
    have a: ?A using h [rule_format, of r] r by (auto simp: sameUnit_def)
    have b: ?B using h [rule_format, of _ c] c by (auto simp: sameUnit_def)
    have c: ?C
    proof (intro notI, elim exE conjE)
      fix r' c' assume x: "r' div 3 = r div 3" "c' div 3 = c div 3" "g ! r' ! c' = v"
      then show False using h [rule_format, of r' c'] d [OF x(1)] e [OF x(2)]
        by (simp add: sameUnit_def)
    qed
    show "?A \<and> ?B \<and> ?C" using a b c by blast
  qed
  finally show ?thesis .
qed

subsection \<open>One step of the search\<close>

lemma full_grid_valid:
  assumes "isValidGrid g False" and "findEmptyCell g = None"
  shows "isValidGrid g True"
proof -
  have wf: "wf_grid g" using assms(1) by (rule isValidGrid_wf)
  have "g ! r ! c \<noteq> 0" if "r < 9" "c < 9" for r c
    using assms(2) that wf_inRange [OF wf that]
    by (auto simp: findEmptyCell_None cellEmpty_def)
  then have "noZeros g" by (simp add: noZeros_def)
  then show ?thesis using assms(1) by (simp add: isValidGrid_iff)
qed

lemma valid_no_empty: "isValidGrid g True \<Longrightarrow> findEmptyCell g = None"
  by (simp add: isValidGrid_iff noZeros_def findEmptyCell_None cellEmpty_def)

lemma placement_keeps_valid:
  assumes v: "isValidGrid g False" and f: "findEmptyCell g = Some (r, c)"
    and p: "isValidPlacement g r c n" and n: "1 \<le> n" "n \<le> 9"
  shows "isValidGrid (setCell g r c n) False"
proof -
  have wf: "wf_grid g" using v by (rule isValidGrid_wf)
  have rc: "r < 9" "c < 9" using findEmptyCell_bounds [OF f] by simp_all
  have z: "g ! r ! c = 0" using f by (rule findEmptyCell_zero)
  have vo: "0 \<le> g ! r' ! c' \<and> g ! r' ! c' \<le> 9" if "r' < 9" "c' < 9" for r' c'
    using isValidGrid_valuesOk [OF v] that by (simp add: valuesOk_def)
  have df: "g ! a ! b \<noteq> g ! a' ! b'"
    if "a < 9" "b < 9" "a' < 9" "b' < 9" "sameUnit a b a' b'" "(a, b) \<noteq> (a', b')" "g ! a ! b \<noteq> 0"
    for a b a' b'
    using isValidGrid_duplicateFree [OF v, unfolded duplicateFree_def, rule_format, of a b a' b'] that
    by blast
  have pl: "g ! a ! b \<noteq> n" if "a < 9" "b < 9" "sameUnit r c a b" for a b
    using p that unfolding isValidPlacement_iff [OF wf rc] by blast
  let ?g = "setCell g r c n"
  have nth: "?g ! a ! b = (if a = r \<and> b = c then n else g ! a ! b)" if "a < 9" "b < 9" for a b
    using nth_setCell [OF wf rc that] .
  have "valuesOk ?g" unfolding valuesOk_def using nth vo n by simp
  moreover have "duplicateFree ?g"
    unfolding duplicateFree_def
  proof (intro allI impI, elim conjE)
    fix a b a' b' :: nat
    assume b: "a < 9" "b < 9" "a' < 9" "b' < 9"
      and su: "sameUnit a b a' b'" and ne: "(a, b) \<noteq> (a', b')" and nz: "?g ! a ! b \<noteq> 0"
    show "?g ! a ! b \<noteq> ?g ! a' ! b'"
    proof (cases "a = r \<and> b = c")
      case True
      then have "(a', b') \<noteq> (r, c)" using ne by auto
      then show ?thesis using True nth [OF b(1,2)] nth [OF b(3,4)] pl [OF b(3,4)] su by auto
    next
      case False
      note ab = this
      show ?thesis
      proof (cases "a' = r \<and> b' = c")
        case True
        have "g ! a ! b \<noteq> n" using pl [OF b(1,2)] sameUnit_sym [OF su] True by simp
        then show ?thesis using True ab nth [OF b(1,2)] nth [OF b(3,4)] by auto
      next
        case False
        then show ?thesis using ab nth [OF b(1,2)] nth [OF b(3,4)] df [OF b su ne] nz by auto
      qed
    qed
  qed
  ultimately show ?thesis using wf_setCell [OF wf] by (simp add: isValidGrid_iff)
qed

lemma completion_cell_range:
  assumes "completion g s" "r < 9" "c < 9"
  shows "1 \<le> s ! r ! c \<and> s ! r ! c \<le> 9"
proof -
  have v: "isValidGrid s True" using assms(1) by (simp add: completion_iff)
  have "s ! r ! c \<noteq> 0" using isValidGrid_noZeros [OF v] assms(2,3) by (simp add: noZeros_def)
  moreover have "0 \<le> s ! r ! c \<and> s ! r ! c \<le> 9"
    using isValidGrid_valuesOk [OF v] assms(2,3) by (simp add: valuesOk_def)
  ultimately show ?thesis by linarith
qed

lemma completion_placement:
  assumes wf: "wf_grid g" and f: "findEmptyCell g = Some (r, c)" and s: "completion g s"
  shows "isValidPlacement g r c (s ! r ! c)"
proof -
  have rc: "r < 9" "c < 9" using findEmptyCell_bounds [OF f] by simp_all
  have z: "g ! r ! c = 0" using f by (rule findEmptyCell_zero)
  have sv: "isValidGrid s True" and ag: "agrees g s" using s by (simp_all add: completion_iff)
  have nz: "s ! r ! c \<noteq> 0" using completion_cell_range [OF s rc] by simp
  have "g ! a ! b \<noteq> s ! r ! c" if ab: "a < 9" "b < 9" and su: "sameUnit r c a b" for a b
  proof
    assume e: "g ! a ! b = s ! r ! c"
    then have "g ! a ! b \<noteq> 0" using nz by simp
    then have "s ! a ! b = g ! a ! b" using ag ab by (simp add: agrees_iff)
    moreover have "(r, c) \<noteq> (a, b)" using e z nz by auto
    ultimately show False
      using isValidGrid_duplicateFree [OF sv, unfolded duplicateFree_def, rule_format, of r c a b]
        rc ab su nz e by simp
  qed
  then show ?thesis unfolding isValidPlacement_iff [OF wf rc] by blast
qed

lemma completion_setCell:
  assumes wf: "wf_grid g" and f: "findEmptyCell g = Some (r, c)" and n: "n \<noteq> 0"
  shows "completion (setCell g r c n) s \<longleftrightarrow> completion g s \<and> s ! r ! c = n"
proof -
  have rc: "r < 9" "c < 9" using findEmptyCell_bounds [OF f] by simp_all
  have z: "g ! r ! c = 0" using f by (rule findEmptyCell_zero)
  have nth: "setCell g r c n ! a ! b = (if a = r \<and> b = c then n else g ! a ! b)"
    if "a < 9" "b < 9" for a b
    using nth_setCell [OF wf rc that] .
  have "agrees (setCell g r c n) s \<longleftrightarrow> agrees g s \<and> s ! r ! c = n"
  proof
    assume a: "agrees (setCell g r c n) s"
    have "s ! a ! b = g ! a ! b" if ab: "a < 9" "b < 9" and nz: "g ! a ! b \<noteq> 0" for a b
    proof -
      have "\<not> (a = r \<and> b = c)" using nz z by auto
      then have "setCell g r c n ! a ! b = g ! a ! b" using nth [OF ab] by auto
      then show ?thesis using a [unfolded agrees_iff, rule_format, OF ab] nz by simp
    qed
    moreover have "s ! r ! c = n"
      using a [unfolded agrees_iff, rule_format, OF rc] nth [OF rc] n by simp
    ultimately show "agrees g s \<and> s ! r ! c = n" by (simp add: agrees_iff)
  next
    assume a: "agrees g s \<and> s ! r ! c = n"
    have "s ! a ! b = setCell g r c n ! a ! b" if ab: "a < 9" "b < 9"
      and nz: "setCell g r c n ! a ! b \<noteq> 0" for a b
    proof (cases "a = r \<and> b = c")
      case True
      then show ?thesis using a nth [OF ab] by simp
    next
      case False
      then have e: "setCell g r c n ! a ! b = g ! a ! b" using nth [OF ab] by auto
      then show ?thesis using a [THEN conjunct1, unfolded agrees_iff, rule_format, OF ab] nz by simp
    qed
    then show "agrees (setCell g r c n) s" by (simp add: agrees_iff)
  qed
  then show ?thesis by (auto simp: completion_iff)
qed

lemma completion_full:
  assumes v: "isValidGrid g False" and f: "findEmptyCell g = None"
  shows "completion g s \<longleftrightarrow> s = g"
proof
  assume "s = g"
  then show "completion g s"
    using full_grid_valid [OF v f] by (simp add: completion_iff agrees_iff)
next
  assume s: "completion g s"
  have wf: "wf_grid g" using v by (rule isValidGrid_wf)
  have ws: "wf_grid s" using s isValidGrid_wf by (auto simp: completion_iff)
  have nz: "g ! r ! c \<noteq> 0" if "r < 9" "c < 9" for r c
    using full_grid_valid [OF v f] that by (simp add: isValidGrid_iff noZeros_def)
  have e: "s ! r ! c = g ! r ! c" if "r < 9" "c < 9" for r c
    using s nz that by (simp add: completion_iff agrees_iff)
  have l: "length g = 9" "length s = 9" "\<And>r. r < 9 \<Longrightarrow> length (g ! r) = 9"
    "\<And>r. r < 9 \<Longrightarrow> length (s ! r) = 9"
    using wf ws by (simp_all add: wf_grid_iff)
  have "s ! r = g ! r" if "r < 9" for r
  proof (rule nth_equalityI)
    show "length (s ! r) = length (g ! r)" using l(3,4) that by simp
    show "s ! r ! i = g ! r ! i" if "i < length (s ! r)" for i
      using e [OF \<open>r < 9\<close>, of i] that l(4) [OF \<open>r < 9\<close>] by simp
  qed
  then show "s = g" using l(1,2) by (simp add: nth_equalityI)
qed

lemma finite_completions: "finite {s. completion g s}"
proof -
  let ?rows = "{row. set row \<subseteq> {0..9::int} \<and> length row = 9}"
  let ?grids = "{s. set s \<subseteq> ?rows \<and> length s = 9}"
  have "finite ?rows" by (rule finite_lists_length_eq) simp
  then have "finite ?grids" by (rule finite_lists_length_eq)
  moreover have "{s. completion g s} \<subseteq> ?grids"
  proof
    fix s assume "s \<in> {s. completion g s}"
    then have v: "isValidGrid s True" by (simp add: completion_iff)
    have wf: "length s = 9" "\<And>r. r < 9 \<Longrightarrow> length (s ! r) = 9"
      using isValidGrid_wf [OF v] by (simp_all add: wf_grid_iff)
    have vo: "0 \<le> s ! r ! c \<and> s ! r ! c \<le> 9" if "r < 9" "c < 9" for r c
      using isValidGrid_valuesOk [OF v] that by (simp add: valuesOk_def)
    have "row \<in> ?rows" if row: "row \<in> set s" for row
    proof -
      obtain r where r: "r < 9" "row = s ! r" using row wf(1) by (auto simp: in_set_conv_nth)
      have "x \<in> {0..9}" if x: "x \<in> set row" for x
      proof -
        have "length row = 9" using r wf(2) by simp
        then obtain c where "c < 9" "x = row ! c" using x by (auto simp: in_set_conv_nth)
        then show ?thesis using vo [OF r(1)] r(2) by simp
      qed
      then show ?thesis using r wf(2) by auto
    qed
    then show "s \<in> ?grids" using wf(1) by auto
  qed
  ultimately show ?thesis by (rule rev_finite_subset)
qed

section \<open>The solver finds a completion when there is one\<close>

lemma solveGrid_correct:
  "isValidGrid g False \<Longrightarrow>
     ((\<exists>s. completion g s) \<longrightarrow> snd (solveGrid g) \<and> completion g (fst (solveGrid g))) \<and>
     ((\<nexists>s. completion g s) \<longrightarrow> solveGrid g = (g, False))"
  "isValidGrid g False \<Longrightarrow> findEmptyCell g = Some (r, c) \<Longrightarrow> 1 \<le> n \<Longrightarrow>
     ((\<exists>s. completion g s \<and> n \<le> s ! r ! c) \<longrightarrow>
        snd (solveLoop g r c n) \<and> completion g (fst (solveLoop g r c n))) \<and>
     ((\<nexists>s. completion g s \<and> n \<le> s ! r ! c) \<longrightarrow> solveLoop g r c n = (g, False))"
proof (induction g and g r c n rule: solveGrid_solveLoop.induct)
  case (1 grid)
  note v = \<open>isValidGrid grid False\<close>
  show ?case
  proof (cases "findEmptyCell grid")
    case None
    then have "solveGrid grid = (grid, True)" by (simp add: solveGrid.simps)
    then show ?thesis using completion_full [OF v None] by simp
  next
    case (Some p)
    obtain row col where p: "p = (row, col)" by (cases p)
    have f: "findEmptyCell grid = Some (row, col)" using Some p by simp
    have rc: "row < 9" "col < 9" using findEmptyCell_bounds [OF f] by simp_all
    have e: "solveGrid grid = solveLoop grid row col 1" using f by (simp add: solveGrid.simps)
    have "completion grid s \<and> 1 \<le> s ! row ! col \<longleftrightarrow> completion grid s" for s
      using completion_cell_range [of grid s, OF _ rc] by auto
    then have "(\<exists>s. completion grid s \<and> 1 \<le> s ! row ! col) \<longleftrightarrow> (\<exists>s. completion grid s)"
      by simp
    then show ?thesis using 1(1) [OF Some p [symmetric] v f] e by simp
  qed
next
  case (2 grid row col num)
  note v = \<open>isValidGrid grid False\<close> and f = \<open>findEmptyCell grid = Some (row, col)\<close>
    and n1 = \<open>1 \<le> num\<close>
  have wf: "wf_grid grid" using v by (rule isValidGrid_wf)
  have rc: "row < 9" "col < 9" using findEmptyCell_bounds [OF f] by simp_all
  have restore: "setCell (setCell grid row col num) row col 0 = grid"
    using cellEmpty_setCell [OF findEmptyCell_Some [OF f]] by (simp add: setCell_setCell)
  show ?case
  proof (cases "num \<le> 9")
    case False
    then have "solveLoop grid row col num = (grid, False)" by (simp add: solveLoop.simps)
    moreover have "\<not> (completion grid s \<and> num \<le> s ! row ! col)" for s
      using completion_cell_range [of grid s, OF _ rc] False by auto
    then have "\<nexists>s. completion grid s \<and> num \<le> s ! row ! col" by simp
    ultimately show ?thesis by simp
  next
    case le: True
    define L where "L \<longleftrightarrow> (\<exists>s. completion grid s \<and> num \<le> s ! row ! col)"
    define A where "A \<longleftrightarrow> (\<exists>s. completion grid s \<and> s ! row ! col = num)"
    define B where "B \<longleftrightarrow> (\<exists>s. completion grid s \<and> num + 1 \<le> s ! row ! col)"
    have split: "L \<longleftrightarrow> A \<or> B"
    proof -
      have "num \<le> x \<longleftrightarrow> x = num \<or> num + 1 \<le> x" for x :: int by auto
      then show ?thesis unfolding L_def A_def B_def by blast
    qed
    have goal: "(L \<longrightarrow> snd (solveLoop grid row col num) \<and> completion grid (fst (solveLoop grid row col num)))
        \<and> (\<not> L \<longrightarrow> solveLoop grid row col num = (grid, False))"
    proof (cases "isValidPlacement grid row col num")
      case False
      then have "\<not> A"
        unfolding A_def using completion_placement [OF wf f] by blast
      moreover have "solveLoop grid row col num = solveLoop grid row col (num + 1)"
        using le False by (subst solveLoop.simps) simp
      moreover have "(B \<longrightarrow> snd (solveLoop grid row col (num + 1))
            \<and> completion grid (fst (solveLoop grid row col (num + 1))))
          \<and> (\<not> B \<longrightarrow> solveLoop grid row col (num + 1) = (grid, False))"
        unfolding B_def using 2(3) [OF le False v f] n1 by simp
      ultimately show ?thesis using split by simp
    next
      case True
      let ?g1 = "setCell grid row col num"
      have v1: "isValidGrid ?g1 False" using placement_keeps_valid [OF v f True n1 le] .
      have c1: "completion ?g1 s \<longleftrightarrow> completion grid s \<and> s ! row ! col = num" for s
        using completion_setCell [OF wf f, of num s] n1 by simp
      then have a: "A \<longleftrightarrow> (\<exists>s. completion ?g1 s)" unfolding A_def by simp
      obtain g1 ok where r: "solveGrid ?g1 = (g1, ok)" by (cases "solveGrid ?g1")
      have ih: "(A \<longrightarrow> ok \<and> completion ?g1 g1) \<and> (\<not> A \<longrightarrow> g1 = ?g1 \<and> \<not> ok)"
        using 2(1) [OF le True v1] r a by simp
      show ?thesis
      proof (cases ok)
        case True
        then have "A" "completion grid g1" using ih c1 by auto
        moreover have "solveLoop grid row col num = (g1, True)"
          using le \<open>isValidPlacement grid row col num\<close> r True by (subst solveLoop.simps) simp
        ultimately show ?thesis using split by simp
      next
        case False
        then have na: "\<not> A" and g1: "g1 = ?g1" using ih by auto
        have "solveLoop grid row col num = solveLoop (setCell g1 row col 0) row col (num + 1)"
          using le True r False by (subst solveLoop.simps) simp
        then have e: "solveLoop grid row col num = solveLoop grid row col (num + 1)"
          using g1 restore by simp
        have "(B \<longrightarrow> snd (solveLoop grid row col (num + 1))
              \<and> completion grid (fst (solveLoop grid row col (num + 1))))
            \<and> (\<not> B \<longrightarrow> solveLoop grid row col (num + 1) = (grid, False))"
          unfolding B_def using 2(2) [OF le True r [symmetric] False] g1 restore v f n1 by simp
        then show ?thesis using split na e by simp
      qed
    qed
    then show ?thesis unfolding L_def by simp
  qed
qed

section \<open>The counter counts the completions, up to two\<close>

lemma countSolutions_correct:
  "isValidGrid g False \<Longrightarrow> k \<le> 1 \<Longrightarrow>
     countSolutions g k = (g, min 2 (k + card {s. completion g s}))"
  "isValidGrid g False \<Longrightarrow> findEmptyCell g = Some (r, c) \<Longrightarrow> 1 \<le> n \<Longrightarrow> k \<le> 1 \<Longrightarrow>
     countLoop g k r c n = (g, min 2 (k + card {s. completion g s \<and> n \<le> s ! r ! c}))"
proof (induction g k and g k r c n rule: countSolutions_countLoop.induct)
  case (1 grid cnt)
  note v = \<open>isValidGrid grid False\<close> and k = \<open>cnt \<le> 1\<close>
  show ?case
  proof (cases "findEmptyCell grid")
    case None
    have "{s. completion grid s} = {grid}" using completion_full [OF v None] by auto
    moreover have "countSolutions grid cnt = (grid, cnt + 1)"
      using None k by (simp add: countSolutions.simps)
    ultimately show ?thesis using k by simp
  next
    case (Some p)
    obtain row col where p: "p = (row, col)" by (cases p)
    have f: "findEmptyCell grid = Some (row, col)" using Some p by simp
    have rc: "row < 9" "col < 9" using findEmptyCell_bounds [OF f] by simp_all
    have e: "countSolutions grid cnt = countLoop grid cnt row col 1"
      using f k by (simp add: countSolutions.simps)
    have "completion grid s \<and> 1 \<le> s ! row ! col \<longleftrightarrow> completion grid s" for s
      using completion_cell_range [of grid s, OF _ rc] by auto
    then have "{s. completion grid s \<and> 1 \<le> s ! row ! col} = {s. completion grid s}" by simp
    then show ?thesis using 1(1) [OF _ Some p [symmetric] v f _ k] k e by simp
  qed
next
  case (2 grid cnt row col num)
  note v = \<open>isValidGrid grid False\<close> and f = \<open>findEmptyCell grid = Some (row, col)\<close>
    and n1 = \<open>1 \<le> num\<close> and k = \<open>cnt \<le> 1\<close>
  have wf: "wf_grid grid" using v by (rule isValidGrid_wf)
  have rc: "row < 9" "col < 9" using findEmptyCell_bounds [OF f] by simp_all
  have restore: "setCell (setCell grid row col num) row col 0 = grid"
    using cellEmpty_setCell [OF findEmptyCell_Some [OF f]] by (simp add: setCell_setCell)
  define SL where "SL = {s. completion grid s \<and> num \<le> s ! row ! col}"
  define SA where "SA = {s. completion grid s \<and> s ! row ! col = num}"
  define SB where "SB = {s. completion grid s \<and> num + 1 \<le> s ! row ! col}"
  have fin: "finite SA" "finite SB"
    unfolding SA_def SB_def using finite_completions [of grid] by simp_all
  have "SL = SA \<union> SB" "SA \<inter> SB = {}" unfolding SL_def SA_def SB_def by auto
  then have card: "card SL = card SA + card SB" using fin by (simp add: card_Un_disjoint)
  have goal: "countLoop grid cnt row col num = (grid, min 2 (cnt + card SL))"
  proof (cases "num \<le> 9")
    case False
    have "\<not> (completion grid s \<and> num \<le> s ! row ! col)" for s
      using completion_cell_range [of grid s, OF _ rc] False by auto
    then have "SL = {}" unfolding SL_def by simp
    moreover have "countLoop grid cnt row col num = (grid, cnt)"
      using False by (simp add: countLoop.simps)
    ultimately show ?thesis using k by simp
  next
    case le: True
    show ?thesis
    proof (cases "isValidPlacement grid row col num")
      case False
      then have "SA = {}" unfolding SA_def using completion_placement [OF wf f] by blast
      moreover have "countLoop grid cnt row col num = countLoop grid cnt row col (num + 1)"
        using le False by (subst countLoop.simps) simp
      moreover have "countLoop grid cnt row col (num + 1) = (grid, min 2 (cnt + card SB))"
        unfolding SB_def using 2(3) [OF le False v f _ k] n1 by simp
      ultimately show ?thesis using card by simp
    next
      case True
      let ?g1 = "setCell grid row col num"
      have v1: "isValidGrid ?g1 False" using placement_keeps_valid [OF v f True n1 le] .
      have "completion ?g1 s \<longleftrightarrow> completion grid s \<and> s ! row ! col = num" for s
        using completion_setCell [OF wf f, of num s] n1 by simp
      then have a: "{s. completion ?g1 s} = SA" unfolding SA_def by simp
      define c1 where "c1 = min 2 (cnt + card SA)"
      have r: "countSolutions ?g1 cnt = (?g1, c1)"
        unfolding c1_def using 2(1) [OF le True v1 k] a by simp
      show ?thesis
      proof (cases "1 < c1")
        case True
        have "countLoop grid cnt row col num = (setCell ?g1 row col 0, c1)"
          using le \<open>isValidPlacement grid row col num\<close> r True by (subst countLoop.simps) simp
        then show ?thesis using restore True card unfolding c1_def by simp
      next
        case False
        then have c1: "c1 \<le> 1" "c1 = cnt + card SA" unfolding c1_def by simp_all
        have "countLoop grid cnt row col num = countLoop (setCell ?g1 row col 0) c1 row col (num + 1)"
          using le True r False by (subst countLoop.simps) simp
        moreover have "countLoop (setCell ?g1 row col 0) c1 row col (num + 1)
            = (grid, min 2 (c1 + card SB))"
          unfolding SB_def using 2(2) [OF le True r [symmetric] False] restore v f n1 c1(1) by simp
        ultimately show ?thesis using card c1(2) restore by simp
      qed
    qed
  qed
  then show ?case unfolding SL_def .
qed

lemma capped_card:
  assumes "finite S"
  shows "min 2 (card S) = 0 \<longleftrightarrow> S = {}"
    and "min 2 (card S) = 1 \<longleftrightarrow> (\<exists>!x. x \<in> S)"
    and "min 2 (card S) = 2 \<longleftrightarrow> (\<exists>x y. x \<noteq> y \<and> x \<in> S \<and> y \<in> S)"
proof -
  show "min 2 (card S) = 0 \<longleftrightarrow> S = {}" using assms by (auto simp: min_def)
  have one: "card S = 1 \<longleftrightarrow> (\<exists>!x. x \<in> S)"
  proof
    assume "card S = 1"
    then obtain x where "S = {x}" by (auto simp: card_1_singleton_iff)
    then show "\<exists>!x. x \<in> S" by simp
  next
    assume "\<exists>!x. x \<in> S"
    then obtain x where "x \<in> S" "\<And>y. y \<in> S \<Longrightarrow> y = x" by blast
    then have "S = {x}" by blast
    then show "card S = 1" by simp
  qed
  moreover have "min 2 (card S) = 1 \<longleftrightarrow> card S = 1" by (auto simp: min_def)
  ultimately show "min 2 (card S) = 1 \<longleftrightarrow> (\<exists>!x. x \<in> S)" by (simp only:)
  have "card S \<le> Suc 0 \<longleftrightarrow> (\<forall>a\<in>S. \<forall>b\<in>S. a = b)"
    using assms by (rule card_le_Suc0_iff_eq)
  moreover have "2 \<le> card S \<longleftrightarrow> \<not> card S \<le> Suc 0" by auto
  ultimately have "2 \<le> card S \<longleftrightarrow> (\<exists>x y. x \<noteq> y \<and> x \<in> S \<and> y \<in> S)" by blast
  moreover have "min 2 (card S) = 2 \<longleftrightarrow> 2 \<le> card S" by (auto simp: min_def)
  ultimately show "min 2 (card S) = 2 \<longleftrightarrow> (\<exists>x y. x \<noteq> y \<and> x \<in> S \<and> y \<in> S)" by (simp only:)
qed

section \<open>Example grids\<close>

text \<open>The complete valid grid of the repository's tests (\<^verbatim>\<open>src/js/generator.test.js\<close>).\<close>

definition validGrid :: grid where
  "validGrid =
    [[1, 2, 3, 4, 5, 6, 7, 8, 9],
     [4, 5, 6, 7, 8, 9, 1, 2, 3],
     [7, 8, 9, 1, 2, 3, 4, 5, 6],
     [2, 3, 4, 5, 6, 7, 8, 9, 1],
     [5, 6, 7, 8, 9, 1, 2, 3, 4],
     [8, 9, 1, 2, 3, 4, 5, 6, 7],
     [3, 4, 5, 6, 7, 8, 9, 1, 2],
     [6, 7, 8, 9, 1, 2, 3, 4, 5],
     [9, 1, 2, 3, 4, 5, 6, 7, 8]]"

text \<open>The same grid with its rows 0..2 rotated: another complete valid grid.\<close>

definition validGrid2 :: grid where
  "validGrid2 =
    [[4, 5, 6, 7, 8, 9, 1, 2, 3],
     [7, 8, 9, 1, 2, 3, 4, 5, 6],
     [1, 2, 3, 4, 5, 6, 7, 8, 9],
     [2, 3, 4, 5, 6, 7, 8, 9, 1],
     [5, 6, 7, 8, 9, 1, 2, 3, 4],
     [8, 9, 1, 2, 3, 4, 5, 6, 7],
     [3, 4, 5, 6, 7, 8, 9, 1, 2],
     [6, 7, 8, 9, 1, 2, 3, 4, 5],
     [9, 1, 2, 3, 4, 5, 6, 7, 8]]"

text \<open>The tests' puzzle: \<open>validGrid\<close> with its two corner cells (0,0) and (8,8) emptied.\<close>

definition puzzleGrid :: grid where
  "puzzleGrid =
    [[0, 2, 3, 4, 5, 6, 7, 8, 9],
     [4, 5, 6, 7, 8, 9, 1, 2, 3],
     [7, 8, 9, 1, 2, 3, 4, 5, 6],
     [2, 3, 4, 5, 6, 7, 8, 9, 1],
     [5, 6, 7, 8, 9, 1, 2, 3, 4],
     [8, 9, 1, 2, 3, 4, 5, 6, 7],
     [3, 4, 5, 6, 7, 8, 9, 1, 2],
     [6, 7, 8, 9, 1, 2, 3, 4, 5],
     [9, 1, 2, 3, 4, 5, 6, 7, 0]]"

text \<open>A full grid that is not valid: every cell holds 1.\<close>

definition onesGrid :: grid where
  "onesGrid = replicate 9 (replicate 9 1)"

lemma validGrid_valid: "isValidGrid validGrid True"
  by code_simp

lemma validGrid2_valid: "isValidGrid validGrid2 True"
  by code_simp

lemma puzzleGrid_valid: "isValidGrid puzzleGrid False"
  by code_simp

lemma emptyGrid_valid: "isValidGrid emptyGrid False"
  by code_simp

lemma puzzleGrid_wf: "wf_grid puzzleGrid"
  by code_simp

lemma puzzleGrid_solved: "solve puzzleGrid = Some validGrid"
  by code_simp

lemma puzzleGrid_count: "countSolutions puzzleGrid 0 = (puzzleGrid, 1)"
  by code_simp

lemma onesGrid_full: "findEmptyCell onesGrid = None"
  by code_simp

lemma onesGrid_wf: "wf_grid onesGrid"
  by code_simp

lemma onesGrid_no_completion: "\<not> completion onesGrid s"
proof
  assume c: "completion onesGrid s"
  then have v: "isValidGrid s True" and a: "agrees onesGrid s" by (simp_all add: completion_iff)
  have "onesGrid ! r ! c = 1" if "r < 9" "c < 9" for r c using that by (simp add: onesGrid_def)
  then have "s ! 0 ! 0 = 1" "s ! 0 ! 1 = 1" using a by (simp_all add: agrees_iff)
  then show False
    using isValidGrid_duplicateFree [OF v, unfolded duplicateFree_def, rule_format, of 0 0 0 1]
    by (simp add: sameUnit_def)
qed

lemma emptyGrid_completions: "completion emptyGrid validGrid" "completion emptyGrid validGrid2"
  using validGrid_valid validGrid2_valid by (simp_all add: completion_iff agrees_iff emptyGrid_def)

lemma validGrids_differ: "validGrid \<noteq> validGrid2"
  by (simp add: validGrid_def validGrid2_def)

section \<open>The generator always produces a solution\<close>

lemma one_to_nine: "[1, 2, 3, 4, 5, 6, 7, 8, 9::int] = [1..9]"
  by code_simp

lemma set_one_to_nine: "set [1, 2, 3, 4, 5, 6, 7, 8, 9::int] = {1..9}"
  unfolding one_to_nine by simp

lemma fillGrid_correct:
  "isValidGrid g False \<Longrightarrow>
     ((\<exists>s. completion g s) \<longrightarrow>
        fst (snd (fillGrid g rnd)) \<and> completion g (fst (fillGrid g rnd))) \<and>
     ((\<nexists>s. completion g s) \<longrightarrow>
        fst (fillGrid g rnd) = g \<and> \<not> fst (snd (fillGrid g rnd)))"
  "isValidGrid g False \<Longrightarrow> findEmptyCell g = Some (r, c) \<Longrightarrow> set nums \<subseteq> {1..9} \<Longrightarrow>
     ((\<exists>s. completion g s \<and> s ! r ! c \<in> set nums) \<longrightarrow>
        fst (snd (fillLoop g rnd r c nums)) \<and> completion g (fst (fillLoop g rnd r c nums))) \<and>
     ((\<nexists>s. completion g s \<and> s ! r ! c \<in> set nums) \<longrightarrow>
        fst (fillLoop g rnd r c nums) = g \<and> \<not> fst (snd (fillLoop g rnd r c nums)))"
proof (induction g rnd and g rnd r c nums rule: fillGrid_fillLoop.induct)
  case (1 grid rnd)
  note v = \<open>isValidGrid grid False\<close>
  show ?case
  proof (cases "findEmptyCell grid")
    case None
    then have "fillGrid grid rnd = (grid, True, rnd)" by (simp add: fillGrid.simps)
    then show ?thesis using completion_full [OF v None] by simp
  next
    case (Some p)
    obtain row col where p: "p = (row, col)" by (cases p)
    have f: "findEmptyCell grid = Some (row, col)" using Some p by simp
    have rc: "row < 9" "col < 9" using findEmptyCell_bounds [OF f] by simp_all
    obtain numbers rnd' where s: "shuffleArray [1, 2, 3, 4, 5, 6, 7, 8, 9::int] rnd = (numbers, rnd')"
      by (cases "shuffleArray [1, 2, 3, 4, 5, 6, 7, 8, 9::int] rnd")
    have e: "fillGrid grid rnd = fillLoop grid rnd' row col numbers"
      using f s by (simp add: fillGrid.simps)
    have n: "set numbers = {1..9}" using set_shuffleArray [OF s] set_one_to_nine by simp
    have "completion grid s \<and> s ! row ! col \<in> set numbers \<longleftrightarrow> completion grid s" for s
      using completion_cell_range [of grid s, OF _ rc] n by auto
    then have "(\<exists>s. completion grid s \<and> s ! row ! col \<in> set numbers) \<longleftrightarrow> (\<exists>s. completion grid s)"
      by simp
    then show ?thesis using 1(1) [OF Some p [symmetric] s [symmetric] v f] n e by simp
  qed
next
  case (2 grid rnd row col)
  show ?case by (simp add: fillLoop.simps)
next
  case (3 grid rnd row col num numbers)
  note v = \<open>isValidGrid grid False\<close> and f = \<open>findEmptyCell grid = Some (row, col)\<close>
  have n1: "1 \<le> num" "num \<le> 9" and ns: "set numbers \<subseteq> {1..9}"
    using \<open>set (num # numbers) \<subseteq> {1..9}\<close> by simp_all
  have wf: "wf_grid grid" using v by (rule isValidGrid_wf)
  have restore: "setCell (setCell grid row col num) row col 0 = grid"
    using cellEmpty_setCell [OF findEmptyCell_Some [OF f]] by (simp add: setCell_setCell)
  define L where "L \<longleftrightarrow> (\<exists>s. completion grid s \<and> s ! row ! col \<in> set (num # numbers))"
  define A where "A \<longleftrightarrow> (\<exists>s. completion grid s \<and> s ! row ! col = num)"
  define B where "B \<longleftrightarrow> (\<exists>s. completion grid s \<and> s ! row ! col \<in> set numbers)"
  let ?res = "fillLoop grid rnd row col (num # numbers)"
  have split: "L \<longleftrightarrow> A \<or> B" unfolding L_def A_def B_def by auto
  have goal: "(L \<longrightarrow> fst (snd ?res) \<and> completion grid (fst ?res))
      \<and> (\<not> L \<longrightarrow> fst ?res = grid \<and> \<not> fst (snd ?res))"
  proof (cases "isValidPlacement grid row col num")
    case False
    then have "\<not> A"
      unfolding A_def using completion_placement [OF wf f] by blast
    moreover have "?res = fillLoop grid rnd row col numbers"
      using False by (subst fillLoop.simps) simp
    moreover have "(B \<longrightarrow> fst (snd (fillLoop grid rnd row col numbers))
          \<and> completion grid (fst (fillLoop grid rnd row col numbers)))
        \<and> (\<not> B \<longrightarrow> fst (fillLoop grid rnd row col numbers) = grid
          \<and> \<not> fst (snd (fillLoop grid rnd row col numbers)))"
      unfolding B_def using 3(3) [OF False v f ns] by simp
    ultimately show ?thesis using split by simp
  next
    case True
    let ?g1 = "setCell grid row col num"
    have v1: "isValidGrid ?g1 False" using placement_keeps_valid [OF v f True n1] .
    have c1: "completion ?g1 s \<longleftrightarrow> completion grid s \<and> s ! row ! col = num" for s
      using completion_setCell [OF wf f, of num s] n1 by simp
    then have a: "A \<longleftrightarrow> (\<exists>s. completion ?g1 s)" unfolding A_def by simp
    obtain g1 ok rnd1 where r: "fillGrid ?g1 rnd = (g1, ok, rnd1)" by (cases "fillGrid ?g1 rnd")
    have ih: "(A \<longrightarrow> ok \<and> completion ?g1 g1) \<and> (\<not> A \<longrightarrow> g1 = ?g1 \<and> \<not> ok)"
      using 3(1) [OF True v1] r a by simp
    show ?thesis
    proof (cases ok)
      case True
      then have "A" "completion grid g1" using ih c1 by auto
      moreover have "?res = (g1, True, rnd1)"
        using \<open>isValidPlacement grid row col num\<close> r True by (subst fillLoop.simps) simp
      ultimately show ?thesis using split by simp
    next
      case False
      then have na: "\<not> A" and g1: "g1 = ?g1" using ih by auto
      have "?res = fillLoop (setCell g1 row col 0) rnd1 row col numbers"
        using True r False by (subst fillLoop.simps) simp
      then have e: "?res = fillLoop grid rnd1 row col numbers"
        using g1 restore by simp
      have "(B \<longrightarrow> fst (snd (fillLoop grid rnd1 row col numbers))
            \<and> completion grid (fst (fillLoop grid rnd1 row col numbers)))
          \<and> (\<not> B \<longrightarrow> fst (fillLoop grid rnd1 row col numbers) = grid
            \<and> \<not> fst (snd (fillLoop grid rnd1 row col numbers)))"
        unfolding B_def using 3(2) [OF True r [symmetric] refl False] g1 restore v f ns by simp
      then show ?thesis using split na e by simp
    qed
  qed
  then show ?case unfolding L_def by simp
qed

lemma fillGrid_emptyGrid:
  "\<exists>s rnd'. fillGrid emptyGrid rnd = (s, True, rnd') \<and> isValidGrid s True"
proof -
  obtain s ok rnd' where r: "fillGrid emptyGrid rnd = (s, ok, rnd')"
    by (cases "fillGrid emptyGrid rnd")
  have "\<exists>s. completion emptyGrid s" using emptyGrid_completions(1) by blast
  then have "ok \<and> completion emptyGrid s"
    using fillGrid_correct(1) [OF emptyGrid_valid, of rnd] r by simp
  then show ?thesis using r by (simp add: completion_iff)
qed

lemma generateSolution_returns:
  "\<exists>s rnd'. generateSolution maxAttempts rnd = Some (s, rnd') \<and> isValidGrid s True"
proof (cases "0 < maxAttempts")
  case True
  obtain s rnd' where f: "fillGrid emptyGrid rnd = (s, True, rnd')" "isValidGrid s True"
    using fillGrid_emptyGrid by blast
  then have "generateSolutionLoop 0 maxAttempts rnd = (Some s, rnd')"
    using True by (subst generateSolutionLoop.simps) simp
  then show ?thesis using f(2) by (subst generateSolution.simps) simp
next
  case False
  then have l: "generateSolutionLoop 0 maxAttempts rnd = (None, rnd)"
    by (subst generateSolutionLoop.simps) simp
  obtain s rnd' where f: "fillGrid emptyGrid rnd = (s, True, rnd')" "isValidGrid s True"
    using fillGrid_emptyGrid by blast
  then show ?thesis using l by (subst generateSolution.simps) simp
qed

section \<open>What the removal loop keeps\<close>

text \<open>\<open>clueOf s p\<close>: every cell of the puzzle \<open>p\<close> is empty or holds the value of the solution \<open>s\<close>.\<close>

definition clueOf :: "grid \<Rightarrow> grid \<Rightarrow> bool" where
  "clueOf s p = list_all (\<lambda>(r, c). p ! r ! c = 0 \<or> p ! r ! c = s ! r ! c) allCells"

lemma clueOf_iff: "clueOf s p \<longleftrightarrow> (\<forall>r<9. \<forall>c<9. p ! r ! c = 0 \<or> p ! r ! c = s ! r ! c)"
  by (simp add: clueOf_def list_all_iff Ball_def set_allCells) blast

lemma nth_setCell_any:
  assumes wf: "wf_grid g" and ab: "a < 9" "b < 9"
  shows "setCell g r c v ! a ! b = (if a = r \<and> b = c then v else g ! a ! b)"
proof (cases "r < 9 \<and> c < 9")
  case True
  then show ?thesis using nth_setCell [OF wf _ _ ab] by simp
next
  case False
  then have "\<not> inRange g r c" using wf by (auto simp: inRange_def wf_grid_iff)
  then show ?thesis using False ab by (auto simp: setCell_outside)
qed

lemma setCell_restore: "setCell (setCell g r c v) r c (g ! r ! c) = g"
proof (cases "inRange g r c")
  case True
  then show ?thesis by (simp add: setCell_setCell setCell_same)
next
  case False
  then show ?thesis by (simp add: setCell_outside)
qed

lemma clueOf_setCell: "wf_grid p \<Longrightarrow> clueOf s p \<Longrightarrow> clueOf s (setCell p r c 0)"
  by (simp add: clueOf_iff nth_setCell_any)

lemma removeCells_clueOf:
  "wf_grid p \<Longrightarrow> clueOf s p \<Longrightarrow>
     wf_grid (removeCells d n positions p k) \<and> clueOf s (removeCells d n positions p k)"
proof (induction positions arbitrary: p k)
  case Nil
  then show ?case by simp
next
  case (Cons pos positions)
  obtain row col where pos: "pos = (row, col)" by (cases pos)
  have a: "wf_grid (setCell p row col 0)" "clueOf s (setCell p row col 0)"
    using Cons.prems by (simp_all add: wf_setCell clueOf_setCell)
  show ?case
    using Cons.IH [OF Cons.prems] Cons.IH [OF a] Cons.prems
    by (simp add: pos Let_def setCell_restore)
qed

lemma removeCells_unique:
  "d = Hard \<or> d = Superhard \<Longrightarrow> hasUniqueSolution p \<Longrightarrow>
     hasUniqueSolution (removeCells d n positions p k)"
proof (induction positions arbitrary: p k)
  case Nil
  then show ?case by simp
next
  case (Cons pos positions)
  obtain row col where pos: "pos = (row, col)" by (cases pos)
  show ?case
  proof (cases "hasUniqueSolution (setCell p row col 0)")
    case True
    show ?thesis
      using Cons.IH [OF Cons.prems(1) True] Cons.prems by (simp add: pos Let_def True)
  next
    case False
    show ?thesis
      using Cons.IH [OF Cons.prems] Cons.prems by (simp add: pos Let_def False setCell_restore)
  qed
qed

lemma clueOf_valid:
  assumes s: "isValidGrid s True" and wf: "wf_grid p" and c: "clueOf s p"
  shows "isValidGrid p False"
proof -
  have e: "p ! r ! c = 0 \<or> p ! r ! c = s ! r ! c" if "r < 9" "c < 9" for r c
    using c that by (simp add: clueOf_iff)
  have vo: "0 \<le> s ! r ! c \<and> s ! r ! c \<le> 9" if "r < 9" "c < 9" for r c
    using isValidGrid_valuesOk [OF s] that by (simp add: valuesOk_def)
  have nz: "s ! r ! c \<noteq> 0" if "r < 9" "c < 9" for r c
    using isValidGrid_noZeros [OF s] that by (simp add: noZeros_def)
  have "valuesOk p" unfolding valuesOk_def using e vo by (metis order_refl zero_le_numeral)
  moreover have "duplicateFree p"
    unfolding duplicateFree_def
  proof (intro allI impI, elim conjE)
    fix a b a' b' :: nat
    assume b: "a < 9" "b < 9" "a' < 9" "b' < 9"
      and su: "sameUnit a b a' b'" and ne: "(a, b) \<noteq> (a', b')" and z: "p ! a ! b \<noteq> 0"
    have d: "s ! a ! b \<noteq> s ! a' ! b'"
      using isValidGrid_duplicateFree [OF s, unfolded duplicateFree_def, rule_format, of a b a' b']
        b su ne nz [OF b(1,2)] by simp
    have "p ! a ! b = s ! a ! b" using e [OF b(1,2)] z by simp
    moreover have "p ! a' ! b' = 0 \<or> p ! a' ! b' = s ! a' ! b'" using e [OF b(3,4)] .
    ultimately show "p ! a ! b \<noteq> p ! a' ! b'" using d z by auto
  qed
  ultimately show ?thesis using wf by (simp add: isValidGrid_iff)
qed

lemma clueOf_refl: "clueOf s s"
  by (simp add: clueOf_iff)

lemma complete_unique: "isValidGrid s True \<Longrightarrow> hasUniqueSolution s"
  by (simp add: hasUniqueSolution_def countSolutions.simps valid_no_empty)

text \<open>One round of the attempt loop always passes its final validation.\<close>

lemma generateAttempt_returns:
  "\<exists>p s rnd'. generateAttempt d rnd = Some ((p, s), True, rnd') \<and>
      isValidGrid s True \<and> isValidGrid p False \<and> clueOf s p \<and>
      (d = Hard \<or> d = Superhard \<longrightarrow> hasUniqueSolution p)"
proof -
  obtain s rnd1 where g: "generateSolution 10 rnd = Some (s, rnd1)" and v: "isValidGrid s True"
    using generateSolution_returns by blast
  obtain u rnd2 where m: "mathRandom rnd1 = (u, rnd2)" by (cases "mathRandom rnd1")
  obtain boxOrder rnd3 where
    b: "shuffleArray [0, 1, 2, 3, 4, 5, 6, 7, 8::nat] (shuffleEach boxes rnd2) = (boxOrder, rnd3)"
    by (cases "shuffleArray [0, 1, 2, 3, 4, 5, 6, 7, 8::nat] (shuffleEach boxes rnd2)")
  define range where "range = (case clueRanges d of Some r \<Rightarrow> r | None \<Rightarrow> the (clueRanges Easy))"
  define n where "n = 81 - (nat \<lfloor>u * real (snd range - fst range + 1)\<rfloor> + fst range)"
  define p where "p = removeCells d n (removalQueue boxes boxOrder) s 0"
  have wf: "wf_grid s" using v by (rule isValidGrid_wf)
  have c: "wf_grid p" "clueOf s p"
    unfolding p_def using removeCells_clueOf [OF wf clueOf_refl] by simp_all
  have vp: "isValidGrid p False" using clueOf_valid [OF v c] .
  have "generateAttempt d rnd = Some ((p, s), isValidGrid p False, rnd3)"
    by (simp only: generateAttempt_def p_def n_def range_def g m b Let_def option.case prod.case)
  then have e: "generateAttempt d rnd = Some ((p, s), True, rnd3)" by (simp only: vp)
  have u: "d = Hard \<or> d = Superhard \<longrightarrow> hasUniqueSolution p"
    unfolding p_def using removeCells_unique [OF _ complete_unique [OF v]] by blast
  show ?thesis
    by (rule exI [of _ p], rule exI [of _ s], rule exI [of _ rnd3]) (intro conjI e v vp c(2) u)
qed

lemma generatePuzzleLoop_returns:
  "attempt < maxAttempts \<Longrightarrow>
     \<exists>p s rnd'. generatePuzzleLoop d attempt maxAttempts rnd = Some (Some (p, s), rnd') \<and>
        isValidGrid s True \<and> isValidGrid p False \<and> clueOf s p \<and>
        (d = Hard \<or> d = Superhard \<longrightarrow> hasUniqueSolution p)"
proof -
  assume a: "attempt < maxAttempts"
  from generateAttempt_returns [of d rnd] obtain p s rnd' where
    x: "generateAttempt d rnd = Some ((p, s), True, rnd') \<and>
      isValidGrid s True \<and> isValidGrid p False \<and> clueOf s p \<and>
      (d = Hard \<or> d = Superhard \<longrightarrow> hasUniqueSolution p)"
    by (elim exE)
  have r: "generateAttempt d rnd = Some ((p, s), True, rnd')" using x by (rule conjunct1)
  have "generatePuzzleLoop d attempt maxAttempts rnd = Some (Some (p, s), rnd')"
    using a by (subst generatePuzzleLoop.simps) (simp only: r if_True option.case prod.case)
  then show ?thesis
    using x [THEN conjunct2]
    by - (rule exI [of _ p], rule exI [of _ s], rule exI [of _ rnd'], rule conjI)
qed

lemma generatePuzzleLoop_zero: "generatePuzzleLoop d 0 0 rnd = Some (None, rnd)"
  by (subst generatePuzzleLoop.simps) simp

text \<open>With no attempt allowed, \<^verbatim>\<open>generatePuzzle\<close> calls itself for ever.\<close>

lemma generatePuzzle_positive:
  assumes "generatePuzzle d maxAttempts rnd = Some res"
  shows "0 < maxAttempts"
proof (rule generatePuzzle.raw_induct [where P = "\<lambda>d m rnd res. 0 < m", OF _ assms], goal_cases)
  case (1 f d m rnd res)
  show ?case
  proof (rule ccontr)
    assume "\<not> 0 < m"
    then have z: "m = 0" by simp
    have "f d 0 rnd = Some res" using 1(2) unfolding z generatePuzzleLoop_zero by simp
    then have "(0::nat) < 0" by (rule 1(1))
    then show False by simp
  qed
qed

lemma generatePuzzle_result:
  assumes "generatePuzzle d maxAttempts rnd = Some ((p, s), rnd')"
  shows "isValidGrid s True \<and> isValidGrid p False \<and> clueOf s p \<and>
      (d = Hard \<or> d = Superhard \<longrightarrow> hasUniqueSolution p)"
proof (cases "0 < maxAttempts")
  case True
  from generatePuzzleLoop_returns [OF True, of d rnd] obtain p' s' rnd'' where
    x: "generatePuzzleLoop d 0 maxAttempts rnd = Some (Some (p', s'), rnd'') \<and>
      isValidGrid s' True \<and> isValidGrid p' False \<and> clueOf s' p' \<and>
      (d = Hard \<or> d = Superhard \<longrightarrow> hasUniqueSolution p')"
    by (elim exE)
  have r: "generatePuzzleLoop d 0 maxAttempts rnd = Some (Some (p', s'), rnd'')"
    using x by (rule conjunct1)
  have "generatePuzzle d maxAttempts rnd = Some ((p', s'), rnd'')"
    by (subst generatePuzzle.simps) (simp only: r option.case prod.case)
  then have "p' = p" "s' = s" using assms by simp_all
  then show ?thesis using x [THEN conjunct2] by simp
next
  case False
  then show ?thesis using generatePuzzle_positive [OF assms] by simp
qed

lemma generatePuzzle_returns:
  "0 < maxAttempts \<Longrightarrow> \<exists>p s rnd'. generatePuzzle d maxAttempts rnd = Some ((p, s), rnd')"
proof -
  assume "0 < maxAttempts"
  from generatePuzzleLoop_returns [OF this, of d rnd] obtain p s rnd' where
    r: "generatePuzzleLoop d 0 maxAttempts rnd = Some (Some (p, s), rnd')"
    by (elim exE conjE)
  have "generatePuzzle d maxAttempts rnd = Some ((p, s), rnd')"
    by (subst generatePuzzle.simps) (simp only: r option.case prod.case)
  then show ?thesis by (intro exI)
qed

section \<open>The removal queue\<close>

definition boxIndex :: "nat \<times> nat \<Rightarrow> nat" where
  "boxIndex p = (fst p div 3) * 3 + snd p div 3"

lemma boxes_length: "list_all (\<lambda>b. length (boxes ! b) = 9) [0..<9]"
  by code_simp

lemma boxes_index: "list_all (\<lambda>b. list_all (\<lambda>i. boxIndex (boxes ! b ! i) = b) [0..<9]) [0..<9]"
  by code_simp

lemma boxes_row_major: "list_all (\<lambda>b. boxes ! b = filter (\<lambda>p. boxIndex p = b) allCells) [0..<9]"
  by code_simp

lemma allCells_boxIndex: "list_all (\<lambda>p. boxIndex p < 9) allCells"
  by code_simp

lemma filter_eq_single: "distinct xs \<Longrightarrow> b \<in> set xs \<Longrightarrow> filter (\<lambda>x. x = b) xs = [b]"
  by (induction xs) (auto simp: filter_empty_conv)

lemma filter_eq_none: "b \<notin> set xs \<Longrightarrow> filter (\<lambda>x. x = b) xs = []"
  by (auto simp: filter_empty_conv)

lemma concat_guarded:
  "\<forall>x\<in>set xs. P x \<Longrightarrow> concat (map (\<lambda>x. if P x then [f x] else []) xs) = map f xs"
  by (induction xs) simp_all

lemma removalQueue_box:
  assumes d: "distinct boxOrder" and s: "set boxOrder = {0..<9}"
  shows "filter (\<lambda>p. boxIndex p = b) (removalQueue boxes boxOrder)
       = filter (\<lambda>p. boxIndex p = b) allCells"
proof -
  have len: "length (boxes ! b') = 9" if "b' < 9" for b'
    using boxes_length that by (simp add: list_all_iff)
  have idx: "boxIndex (boxes ! b' ! i) = b'" if "b' < 9" "i < 9" for b' i
    using boxes_index that by (simp add: list_all_iff)
  have round: "filter (\<lambda>p. boxIndex p = b)
       (concat (map (\<lambda>boxIndex. if i < length (boxes ! boxIndex) then [boxes ! boxIndex ! i] else [])
          boxOrder))
     = map (\<lambda>b'. boxes ! b' ! i) (filter (\<lambda>b'. b' = b) boxOrder)" if i: "i < 9" for i
  proof -
    have "concat (map (\<lambda>boxIndex. if i < length (boxes ! boxIndex) then [boxes ! boxIndex ! i] else [])
          boxOrder) = map (\<lambda>b'. boxes ! b' ! i) boxOrder"
      using s len i by (intro concat_guarded) simp
    moreover have "filter ((\<lambda>p. boxIndex p = b) \<circ> (\<lambda>b'. boxes ! b' ! i)) boxOrder
        = filter (\<lambda>b'. b' = b) boxOrder"
      using s idx i by (intro filter_cong) auto
    ultimately show ?thesis by (simp add: filter_map)
  qed
  define F where "F = (\<lambda>i. concat (map (\<lambda>boxIndex.
      if i < length (boxes ! boxIndex) then [boxes ! boxIndex ! i] else []) boxOrder))"
  have "removalQueue boxes boxOrder = concat (map F [0..<9])"
    by (simp add: removalQueue_def F_def)
  then have "filter (\<lambda>p. boxIndex p = b) (removalQueue boxes boxOrder)
      = concat (map (\<lambda>i. filter (\<lambda>p. boxIndex p = b) (F i)) [0..<9])"
    by (simp only: filter_concat map_map comp_def)
  also have "map (\<lambda>i. filter (\<lambda>p. boxIndex p = b) (F i)) [0..<9]
      = map (\<lambda>i. map (\<lambda>b'. boxes ! b' ! i) (filter (\<lambda>b'. b' = b) boxOrder)) [0..<9]"
    by (rule map_cong) (simp_all add: F_def round)
  finally have q: "filter (\<lambda>p. boxIndex p = b) (removalQueue boxes boxOrder)
      = concat (map (\<lambda>i. map (\<lambda>b'. boxes ! b' ! i) (filter (\<lambda>b'. b' = b) boxOrder)) [0..<9])" .
  show ?thesis
  proof (cases "b < 9")
    case True
    then have "filter (\<lambda>b'. b' = b) boxOrder = [b]" using d s by (simp add: filter_eq_single)
    then have "filter (\<lambda>p. boxIndex p = b) (removalQueue boxes boxOrder)
        = map (\<lambda>i. boxes ! b ! i) [0..<9]"
      using q by (simp add: concat_map_singleton)
    also have "\<dots> = boxes ! b" using len [OF True] by (metis map_nth)
    also have "\<dots> = filter (\<lambda>p. boxIndex p = b) allCells"
      using boxes_row_major True by (simp add: list_all_iff)
    finally show ?thesis .
  next
    case False
    then have "filter (\<lambda>b'. b' = b) boxOrder = []" using s by (simp add: filter_eq_none)
    then have "filter (\<lambda>p. boxIndex p = b) (removalQueue boxes boxOrder) = []"
      using q by simp
    moreover have "filter (\<lambda>p. boxIndex p = b) allCells = []"
      using allCells_boxIndex False by (auto simp: filter_empty_conv list_all_iff)
    ultimately show ?thesis by simp
  qed
qed

lemma boxOrder_permutation:
  "shuffleArray [0, 1, 2, 3, 4, 5, 6, 7, 8::nat] rnd = (boxOrder, rnd') \<Longrightarrow>
     distinct boxOrder \<and> set boxOrder = {0..<9}"
proof -
  assume "shuffleArray [0, 1, 2, 3, 4, 5, 6, 7, 8::nat] rnd = (boxOrder, rnd')"
  then have m: "mset boxOrder = mset [0, 1, 2, 3, 4, 5, 6, 7, 8::nat]"
    using mset_shuffleArray [of "[0, 1, 2, 3, 4, 5, 6, 7, 8::nat]" rnd] by simp
  have u: "[0, 1, 2, 3, 4, 5, 6, 7, 8::nat] = [0..<9]" by code_simp
  have "distinct boxOrder" using m u by (metis distinct_upt mset_eq_imp_distinct_iff)
  moreover have "set boxOrder = {0..<9}" using m u by (metis mset_eq_setD set_upt)
  ultimately show ?thesis by simp
qed

section \<open>What a hint reports\<close>

lemma nakedSingleLoop_number:
  "nakedSingleLoop g cs st cells = Some h \<Longrightarrow>
     hintNumber h = solution st ! hintRow h ! hintCol h"
  by (induction cells) (auto simp: Let_def split: if_splits)

lemma hiddenRowLoop_number:
  "hiddenRowLoop g cs st ps = Some h \<Longrightarrow> hintNumber h = solution st ! hintRow h ! hintCol h"
  by (induction ps) (auto simp: Let_def split: if_splits)

lemma hiddenColumnLoop_number:
  "hiddenColumnLoop g cs st ps = Some h \<Longrightarrow> hintNumber h = solution st ! hintRow h ! hintCol h"
  by (induction ps) (auto simp: Let_def split: if_splits)

lemma hiddenBoxLoop_number:
  "hiddenBoxLoop g cs st ps = Some h \<Longrightarrow> hintNumber h = solution st ! hintRow h ! hintCol h"
  by (induction ps) (auto simp: Let_def split: if_splits prod.splits)

lemma fallbackLoop_number:
  "fallbackLoop st cells = Some h \<Longrightarrow> hintNumber h = solution st ! hintRow h ! hintCol h"
  by (induction cells) (auto split: if_splits)

lemma findHint_number:
  "findHint st = Some h \<Longrightarrow> hintNumber h = solution st ! hintRow h ! hintCol h"
  unfolding findHint_def Let_def findNakedSingle_def findHiddenSingleInRow_def
    findHiddenSingleInColumn_def findHiddenSingleInBox_def findFallbackHint_def
  by (auto split: option.splits
      dest: nakedSingleLoop_number hiddenRowLoop_number hiddenColumnLoop_number
        hiddenBoxLoop_number fallbackLoop_number)

subsection \<open>When there is no hint\<close>

text \<open>A cell is open when it is not official and has no user entry.\<close>

definition openCell :: "gameState \<Rightarrow> nat \<times> nat \<Rightarrow> bool" where
  "openCell state p = (\<not> official state ! fst p ! snd p \<and> userEntries state ! fst p ! snd p = 0)"

lemma fallbackLoop_None: "fallbackLoop st cells = None \<longleftrightarrow> (\<forall>p\<in>set cells. \<not> openCell st p)"
  by (induction cells) (auto simp: openCell_def split: if_splits)

lemma findFallbackHint_None:
  "findFallbackHint st = None \<longleftrightarrow> (\<forall>r<9. \<forall>c<9. \<not> openCell st (r, c))"
  by (simp add: findFallbackHint_def fallbackLoop_None Ball_def set_allCells) blast

lemma nakedSingleLoop_full:
  "\<forall>p\<in>set cells. g ! fst p ! snd p \<noteq> 0 \<Longrightarrow> nakedSingleLoop g cs st cells = None"
  by (induction cells) auto

lemma hiddenRowLoop_none:
  "\<forall>p\<in>set ps. \<forall>c<9. cs ! fst p ! c = [] \<Longrightarrow> hiddenRowLoop g cs st ps = None"
proof (induction ps)
  case Nil
  show ?case by simp
next
  case (Cons p ps)
  obtain r num where p: "p = (r, num)" by (cases p)
  have "filter (\<lambda>c. List.member (cs ! r ! c) num) [0..<9] = []"
    using Cons.prems p by (auto simp: filter_empty_conv)
  then show ?case using Cons p by (simp add: Let_def)
qed

lemma hiddenColumnLoop_none:
  "\<forall>p\<in>set ps. \<forall>r<9. cs ! r ! fst p = [] \<Longrightarrow> hiddenColumnLoop g cs st ps = None"
proof (induction ps)
  case Nil
  show ?case by simp
next
  case (Cons p ps)
  obtain c num where p: "p = (c, num)" by (cases p)
  have "filter (\<lambda>r. List.member (cs ! r ! c) num) [0..<9] = []"
    using Cons.prems p by (auto simp: filter_empty_conv)
  then show ?case using Cons p by (simp add: Let_def)
qed

lemma hiddenBoxLoop_none:
  "\<forall>p\<in>set ps. fst p < 3 \<and> fst (snd p) < 3 \<Longrightarrow> \<forall>r<9. \<forall>c<9. cs ! r ! c = [] \<Longrightarrow>
     hiddenBoxLoop g cs st ps = None"
proof (induction ps)
  case Nil
  show ?case by simp
next
  case (Cons p ps)
  obtain boxRow boxCol num where p: "p = (boxRow, boxCol, num)" by (cases p)
  have b: "boxRow < 3" "boxCol < 3" using Cons.prems(1) p by simp_all
  let ?cells = "[(r, c). r \<leftarrow> [boxRow * 3..<boxRow * 3 + 3], c \<leftarrow> [boxCol * 3..<boxCol * 3 + 3]]"
  have "r < 9 \<and> c < 9" if "(r, c) \<in> set ?cells" for r c using that b by auto
  then have "\<not> List.member (cs ! r ! c) num" if "(r, c) \<in> set ?cells" for r c
    using that Cons.prems(2) by simp
  then have "filter (\<lambda>(r, c). List.member (cs ! r ! c) num) ?cells = []"
    unfolding filter_empty_conv by blast
  then show ?case using Cons p by (simp add: Let_def)
qed

lemma buildCurrentGrid_nth:
  "r < 9 \<Longrightarrow> c < 9 \<Longrightarrow>
     buildCurrentGrid st ! r ! c =
       (if official st ! r ! c then puzzle st ! r ! c
        else if userEntries st ! r ! c \<noteq> 0 then userEntries st ! r ! c else 0)"
  by (simp add: buildCurrentGrid_def)

lemma calculateCandidates_full:
  "\<forall>r<9. \<forall>c<9. g ! r ! c \<noteq> 0 \<Longrightarrow> r < 9 \<Longrightarrow> c < 9 \<Longrightarrow> calculateCandidates g ! r ! c = []"
  by (simp add: calculateCandidates_def)

text \<open>
  A cell that is official holds a non-zero puzzle value. This is what the search for
  singles needs of a state; the states of the game have it, since there a cell is official
  exactly when its puzzle value is not 0.
\<close>

definition officialFilled :: "gameState \<Rightarrow> bool" where
  "officialFilled state =
     list_all (\<lambda>(r, c). \<not> official state ! r ! c \<or> puzzle state ! r ! c \<noteq> 0) allCells"

definition wf_state :: "gameState \<Rightarrow> bool" where
  "wf_state state =
     (wf_grid (puzzle state) \<and> wf_grid (userEntries state) \<and> wf_grid (solution state) \<and>
      length (official state) = 9 \<and> list_all (\<lambda>r. length r = 9) (official state))"

lemma official_filled:
  assumes "wf_grid (puzzle st)"
    and "official st = map (map (\<lambda>cell. cell \<noteq> 0)) (puzzle st)"
  shows "officialFilled st"
proof -
  have "official st ! r ! c = (puzzle st ! r ! c \<noteq> 0)" if "r < 9" "c < 9" for r c
  proof -
    have "r < length (puzzle st)" "c < length (puzzle st ! r)"
      using assms(1) that by (simp_all add: wf_grid_iff)
    then show ?thesis by (simp add: assms(2))
  qed
  then show ?thesis by (auto simp: officialFilled_def list_all_iff set_allCells)
qed

lemma findHint_None_iff:
  assumes "officialFilled st"
  shows "findHint st = None \<longleftrightarrow> (\<forall>r<9. \<forall>c<9. \<not> openCell st (r, c))"
proof
  assume "findHint st = None"
  then have "findFallbackHint st = None"
    by (simp add: findHint_def Let_def split: option.splits)
  then show "\<forall>r<9. \<forall>c<9. \<not> openCell st (r, c)" by (simp add: findFallbackHint_None)
next
  assume n: "\<forall>r<9. \<forall>c<9. \<not> openCell st (r, c)"
  let ?g = "buildCurrentGrid st"
  have o: "\<not> official st ! r ! c \<or> puzzle st ! r ! c \<noteq> 0" if "r < 9" "c < 9" for r c
    using assms that by (auto simp: officialFilled_def list_all_iff set_allCells)
  have g: "?g ! r ! c \<noteq> 0" if "r < 9" "c < 9" for r c
    using o [OF that] n that by (auto simp: buildCurrentGrid_nth openCell_def)
  then have cs: "\<forall>r<9. \<forall>c<9. calculateCandidates ?g ! r ! c = []"
    by (simp add: calculateCandidates_full)
  have 1: "findNakedSingle ?g (calculateCandidates ?g) st = None"
    unfolding findNakedSingle_def using g by (intro nakedSingleLoop_full) (simp add: set_allCells)
  have 2: "findHiddenSingleInRow ?g (calculateCandidates ?g) st = None"
    unfolding findHiddenSingleInRow_def using cs by (intro hiddenRowLoop_none) auto
  have 3: "findHiddenSingleInColumn ?g (calculateCandidates ?g) st = None"
    unfolding findHiddenSingleInColumn_def using cs by (intro hiddenColumnLoop_none) auto
  have 4: "findHiddenSingleInBox ?g (calculateCandidates ?g) st = None"
    unfolding findHiddenSingleInBox_def using cs by (intro hiddenBoxLoop_none) auto
  have 5: "findFallbackHint st = None" using n by (simp add: findFallbackHint_None)
  show "findHint st = None" by (simp add: findHint_def Let_def 1 2 3 4 5)
qed

lemma findHint_open: "r < 9 \<Longrightarrow> c < 9 \<Longrightarrow> openCell st (r, c) \<Longrightarrow> findHint st \<noteq> None"
proof -
  assume "r < 9" "c < 9" "openCell st (r, c)"
  then have "findFallbackHint st \<noteq> None" using findFallbackHint_None by blast
  then show ?thesis by (auto simp: findHint_def Let_def split: option.splits)
qed

section \<open>Example game states\<close>

text \<open>
  The tests' puzzle as the controller sets it up, with the tests' valid grid as the
  solution: the cells (0,0) and (8,8) are open. In the second state the player has filled
  both.
\<close>

definition hintState :: gameState where
  "hintState = startNewGame (puzzleGrid, validGrid)"

definition solvedState :: gameState where
  "solvedState = hintState\<lparr>userEntries := setCell (setCell emptyGrid 0 0 1) 8 8 8\<rparr>"

lemma hintState_hint:
  "findHint hintState =
     Some \<lparr>hintRow = 0, hintCol = 0, hintNumber = 1, hintTechnique = ''Naked Single''\<rparr>"
  by code_simp

lemma solvedState_hint: "findHint solvedState = None"
  by code_simp

lemma hintState_wf: "wf_state hintState"
  by code_simp

lemma solvedState_wf: "wf_state solvedState"
  by code_simp

lemma hintState_official:
  "official hintState = map (map (\<lambda>cell. cell \<noteq> 0)) (puzzle hintState)"
  by (simp add: hintState_def startNewGame_def)

lemma solvedState_official:
  "official solvedState = map (map (\<lambda>cell. cell \<noteq> 0)) (puzzle solvedState)"
  by (simp add: solvedState_def hintState_def startNewGame_def)

section \<open>The claims\<close>

text \<open>
  C1. For difficulty \<^verbatim>\<open>'hard'\<close> or \<^verbatim>\<open>'superhard'\<close>, every result \<^verbatim>\<open>{puzzle, solution}\<close> that
  \<^verbatim>\<open>generatePuzzle\<close> returns (for every random source and attempt bound) has a puzzle on
  which \<^verbatim>\<open>countSolutions\<close> returns 1, and that puzzle has exactly one valid completion.
  With at least one attempt allowed, \<^verbatim>\<open>generatePuzzle\<close> does return.
\<close>

theorem generatePuzzle_hard_unique:
  "difficulty = Hard \<or> difficulty = Superhard \<Longrightarrow>
     (\<forall>p s rnd'. generatePuzzle difficulty maxAttempts rnd = Some ((p, s), rnd') \<longrightarrow>
        snd (countSolutions p 0) = 1 \<and> (\<exists>!t. completion p t)) \<and>
     (0 < maxAttempts \<longrightarrow> (\<exists>res. generatePuzzle difficulty maxAttempts rnd = Some res))"
proof (intro conjI allI impI)
  fix p s rnd'
  assume d: "difficulty = Hard \<or> difficulty = Superhard"
    and r: "generatePuzzle difficulty maxAttempts rnd = Some ((p, s), rnd')"
  have v: "isValidGrid p False" and u: "hasUniqueSolution p"
    using generatePuzzle_result [OF r] d by simp_all
  have one: "snd (countSolutions p 0) = 1" using u by (simp add: hasUniqueSolution_def)
  then have "min 2 (card {t. completion p t}) = 1"
    using countSolutions_correct(1) [OF v, of 0] by simp
  then have "\<exists>!t. completion p t"
    using capped_card(2) [OF finite_completions, of p] by simp
  then show "snd (countSolutions p 0) = 1" "\<exists>!t. completion p t" using one by simp_all
next
  assume "0 < maxAttempts"
  then show "\<exists>res. generatePuzzle difficulty maxAttempts rnd = Some res"
    using generatePuzzle_returns [of maxAttempts difficulty rnd] by blast
qed

theorem generatePuzzle_hard_unique_witness:
  "\<exists>p s rnd'. generatePuzzle Hard 10 (\<lambda>k. Abs_rand01 0) = Some ((p, s), rnd') \<and>
      snd (countSolutions p 0) = 1 \<and> (\<exists>!t. completion p t)"
proof -
  have h: "Hard = Hard \<or> Hard = Superhard" by simp
  note t = generatePuzzle_hard_unique [OF h, of 10 "\<lambda>k. Abs_rand01 0"]
  from t obtain res where "generatePuzzle Hard 10 (\<lambda>k. Abs_rand01 0) = Some res" by auto
  then obtain p s rnd' where r: "generatePuzzle Hard 10 (\<lambda>k. Abs_rand01 0) = Some ((p, s), rnd')"
    by (metis prod.collapse)
  then have "snd (countSolutions p 0) = 1 \<and> (\<exists>!t. completion p t)"
    using t [THEN conjunct1, rule_format, OF r] by simp
  then show ?thesis using r by blast
qed

text \<open>
  C2. For every difficulty, every result \<^verbatim>\<open>{puzzle, solution}\<close> that \<^verbatim>\<open>generatePuzzle\<close>
  returns has each non-zero cell of the puzzle equal to the same cell of the solution.
  With at least one attempt allowed, \<^verbatim>\<open>generatePuzzle\<close> does return.
\<close>

theorem generatePuzzle_clues_from_solution:
  "(\<forall>p s rnd'. generatePuzzle difficulty maxAttempts rnd = Some ((p, s), rnd') \<longrightarrow>
      (\<forall>r<9. \<forall>c<9. p ! r ! c \<noteq> 0 \<longrightarrow> p ! r ! c = s ! r ! c)) \<and>
   (0 < maxAttempts \<longrightarrow> (\<exists>res. generatePuzzle difficulty maxAttempts rnd = Some res))"
proof (intro conjI allI impI)
  fix p s rnd' r c
  assume g: "generatePuzzle difficulty maxAttempts rnd = Some ((p, s), rnd')"
    and b: "r < (9::nat)" "c < (9::nat)" and nz: "p ! r ! c \<noteq> 0"
  have "clueOf s p" using generatePuzzle_result [OF g] by simp
  then show "p ! r ! c = s ! r ! c" using b nz unfolding clueOf_iff by blast
next
  assume "0 < maxAttempts"
  then show "\<exists>res. generatePuzzle difficulty maxAttempts rnd = Some res"
    using generatePuzzle_returns [of maxAttempts difficulty rnd] by blast
qed

theorem generatePuzzle_clues_from_solution_witness:
  "\<exists>p s rnd'. generatePuzzle Easy 10 (\<lambda>k. Abs_rand01 0) = Some ((p, s), rnd') \<and>
      clueOf s p"
proof -
  note t = generatePuzzle_clues_from_solution [of Easy 10 "\<lambda>k. Abs_rand01 0"]
  from t obtain res where "generatePuzzle Easy 10 (\<lambda>k. Abs_rand01 0) = Some res" by auto
  then obtain p s rnd' where r: "generatePuzzle Easy 10 (\<lambda>k. Abs_rand01 0) = Some ((p, s), rnd')"
    by (metis prod.collapse)
  have "\<forall>r<9. \<forall>c<9. p ! r ! c \<noteq> 0 \<longrightarrow> p ! r ! c = s ! r ! c"
    using t [THEN conjunct1, rule_format, OF r] by blast
  then have "clueOf s p" unfolding clueOf_iff by blast
  then show ?thesis using r by blast
qed

text \<open>
  C3, as stated: for every 9x9 grid, \<^verbatim>\<open>solve\<close> returns null exactly when the grid has no
  valid completion. It fails on a full grid that breaks the rules: the search finds no
  empty cell and returns the grid as it is, although nothing valid agrees with it.
\<close>

theorem solve_null_iff_counterexample:
  "wf_grid onesGrid \<and> solve onesGrid = Some onesGrid \<and> (\<nexists>s. completion onesGrid s)"
proof -
  have "solve onesGrid = Some onesGrid"
    by (simp add: solve_def solveGrid.simps onesGrid_full)
  then show ?thesis using onesGrid_wf onesGrid_no_completion by simp
qed

text \<open>
  C3, amended: for every 9x9 grid that passes \<^verbatim>\<open>isValidGrid(grid, false)\<close> (values 0..9
  and no duplicate among the filled cells of a row, column or box), \<^verbatim>\<open>solve\<close> returns
  null exactly when the grid has no valid completion, and otherwise returns a valid
  completion: a complete valid grid that agrees with every non-zero cell of the input.
\<close>

theorem solve_null_iff_no_completion:
  "isValidGrid grid False \<Longrightarrow>
     (solve grid = None \<longleftrightarrow> (\<nexists>s. completion grid s)) \<and>
     (case solve grid of None \<Rightarrow> True | Some s \<Rightarrow> completion grid s)"
proof -
  assume v: "isValidGrid grid False"
  obtain g ok where r: "solveGrid grid = (g, ok)" by (cases "solveGrid grid")
  show ?thesis
  proof (cases "\<exists>s. completion grid s")
    case True
    then have "ok \<and> completion grid g" using solveGrid_correct(1) [OF v] r by simp
    then show ?thesis using True r by (simp add: solve_def)
  next
    case False
    then have "\<not> ok" using solveGrid_correct(1) [OF v] r by simp
    then show ?thesis using False r by (simp add: solve_def)
  qed
qed

theorem solve_null_iff_no_completion_witness:
  "isValidGrid puzzleGrid False \<and> solve puzzleGrid = Some validGrid \<and>
   completion puzzleGrid validGrid \<and> (\<exists>s. completion puzzleGrid s)"
proof -
  note t = solve_null_iff_no_completion [OF puzzleGrid_valid]
  have c: "completion puzzleGrid validGrid"
    using t [THEN conjunct2] by (simp add: puzzleGrid_solved)
  have e: "\<exists>s. completion puzzleGrid s"
    using t [THEN conjunct1] by (simp add: puzzleGrid_solved)
  show ?thesis using puzzleGrid_valid puzzleGrid_solved c e by (intro conjI)
qed

text \<open>
  C4. For every complete valid 9x9 grid (values 1..9, so no zeros, and no duplicate in a
  row, column or box), \<^verbatim>\<open>solve\<close> returns a grid equal to it cell for cell.
\<close>

theorem solve_complete_grid_unchanged:
  "validSolution grid \<Longrightarrow> solve grid = Some grid"
  by (simp add: solve_def solveGrid.simps valid_no_empty validSolution_iff)

theorem solve_complete_grid_unchanged_witness:
  "validSolution validGrid \<and> solve validGrid = Some validGrid"
proof -
  have h: "validSolution validGrid" using validGrid_valid by (simp add: validSolution_iff)
  show ?thesis using h solve_complete_grid_unchanged [OF h] by (rule conjI)
qed

text \<open>
  C5. The claim: within each 3x3 box the removal queue visits the positions in an
  independently shuffled order. The code calls \<^verbatim>\<open>shuffleArray\<close> on every box and drops the
  shuffled copies, so for every random source the queue, restricted to any box, lists
  that box's positions in the row-major order in which they were collected; only the
  order of the boxes within a round is shuffled.
\<close>

theorem removalQueue_boxes_row_major:
  "filter (\<lambda>p. boxIndex p = b)
     (removalQueue boxes (fst (shuffleArray [0, 1, 2, 3, 4, 5, 6, 7, 8] rnd)))
   = filter (\<lambda>p. boxIndex p = b) allCells"
proof -
  obtain boxOrder rnd' where s: "shuffleArray [0, 1, 2, 3, 4, 5, 6, 7, 8::nat] rnd = (boxOrder, rnd')"
    by (cases "shuffleArray [0, 1, 2, 3, 4, 5, 6, 7, 8::nat] rnd")
  have "distinct boxOrder" "set boxOrder = {0..<9}"
    using boxOrder_permutation [OF s] by simp_all
  then show ?thesis using s by (simp add: removalQueue_box)
qed

text \<open>
  C6, as stated: for every 9x9 grid, \<^verbatim>\<open>countSolutions\<close> returns 0 when the grid has no
  valid completion. It fails on a full grid that breaks the rules: no empty cell is found,
  the counter is incremented, and the result is 1 although nothing valid agrees with the
  grid.
\<close>

theorem countSolutions_counterexample:
  "wf_grid onesGrid \<and> snd (countSolutions onesGrid 0) = 1 \<and> (\<nexists>s. completion onesGrid s)"
proof -
  have "countSolutions onesGrid 0 = (onesGrid, 1)"
    by (simp add: countSolutions.simps onesGrid_full)
  then show ?thesis using onesGrid_wf onesGrid_no_completion by simp
qed

text \<open>
  C6, amended: for every 9x9 grid that passes \<^verbatim>\<open>isValidGrid(grid, false)\<close>,
  \<^verbatim>\<open>countSolutions\<close> called with the default counter (value 0) returns a value in
  {0, 1, 2}: 0 exactly when the grid has no valid completion, 1 exactly when it has one,
  2 exactly when it has two or more; on the all-zeros grid it returns 2. It terminates on
  every grid: \<open>countSolutions\<close> is a total function, by the termination proof above.
\<close>

theorem countSolutions_counts_completions:
  "isValidGrid grid False \<Longrightarrow>
     snd (countSolutions grid 0) \<in> {0, 1, 2} \<and>
     (snd (countSolutions grid 0) = 0 \<longleftrightarrow> (\<nexists>s. completion grid s)) \<and>
     (snd (countSolutions grid 0) = 1 \<longleftrightarrow> (\<exists>!s. completion grid s)) \<and>
     (snd (countSolutions grid 0) = 2 \<longleftrightarrow>
        (\<exists>s t. s \<noteq> t \<and> completion grid s \<and> completion grid t)) \<and>
     snd (countSolutions emptyGrid 0) = 2"
proof -
  assume v: "isValidGrid grid False"
  have n: "snd (countSolutions g 0) = min 2 (card {s. completion g s})"
    if "isValidGrid g False" for g
    using countSolutions_correct(1) [OF that, of 0] by simp
  have "\<exists>s t. s \<noteq> t \<and> s \<in> {s. completion emptyGrid s} \<and> t \<in> {s. completion emptyGrid s}"
    using emptyGrid_completions validGrids_differ by blast
  then have e: "snd (countSolutions emptyGrid 0) = 2"
    using n [OF emptyGrid_valid] capped_card(3) [OF finite_completions, of emptyGrid] by simp
  have "snd (countSolutions grid 0) \<in> {0, 1, 2}" unfolding n [OF v] by (auto simp: min_def)
  then show ?thesis
    unfolding n [OF v] using capped_card [OF finite_completions, of grid] e by simp
qed

theorem countSolutions_counts_completions_witness:
  "isValidGrid puzzleGrid False \<and> snd (countSolutions puzzleGrid 0) = 1 \<and>
   (\<exists>!s. completion puzzleGrid s) \<and> snd (countSolutions emptyGrid 0) = 2"
proof -
  note t = countSolutions_counts_completions [OF puzzleGrid_valid]
  have one: "snd (countSolutions puzzleGrid 0) = 1" by (simp add: puzzleGrid_count)
  have u: "\<exists>!s. completion puzzleGrid s"
    using t [THEN conjunct2, THEN conjunct2, THEN conjunct1] one by simp
  have e: "snd (countSolutions emptyGrid 0) = 2"
    using t [THEN conjunct2, THEN conjunct2, THEN conjunct2, THEN conjunct2] .
  show ?thesis using puzzleGrid_valid one u e by (intro conjI)
qed

text \<open>
  C7. For every 9x9 grid and every value of the shared counter, the grid that
  \<^verbatim>\<open>countSolutions\<close> leaves behind is cell for cell the grid it was given: every
  speculative placement has been undone, also on the early exits taken when the counter
  exceeds 1.
\<close>

theorem countSolutions_restores_grid:
  "wf_grid grid \<Longrightarrow> fst (countSolutions grid cnt) = grid"
  by (rule countSolutions_frame)

theorem countSolutions_restores_grid_witness:
  "wf_grid puzzleGrid \<and> fst (countSolutions puzzleGrid 0) = puzzleGrid"
  using puzzleGrid_wf countSolutions_restores_grid [OF puzzleGrid_wf, of 0] by (rule conjI)

text \<open>
  C8. For every game state, that is, four 9x9 arrays of which \<^verbatim>\<open>official\<close> is the one the
  game derives from the puzzle (\<^verbatim>\<open>cell !== 0\<close>), \<^verbatim>\<open>findHint\<close> returns null exactly when
  no cell is both non-official and without a user entry; and whenever there is such a
  cell it returns a hint. The model of \<^verbatim>\<open>findHint\<close> is total and reads the arrays within
  their bounds only, so nothing is thrown.
\<close>

theorem findHint_null_iff_complete:
  assumes "wf_state state"
    and "official state = map (map (\<lambda>cell. cell \<noteq> 0)) (puzzle state)"
  shows "(findHint state = None \<longleftrightarrow>
            \<not> (\<exists>r<9. \<exists>c<9. \<not> official state ! r ! c \<and> userEntries state ! r ! c = 0)) \<and>
         ((\<exists>r<9. \<exists>c<9. \<not> official state ! r ! c \<and> userEntries state ! r ! c = 0)
            \<longrightarrow> findHint state \<noteq> None)"
proof -
  have "wf_grid (puzzle state)" using assms(1) by (simp add: wf_state_def)
  then have "officialFilled state" using assms(2) by (rule official_filled)
  then have "findHint state = None \<longleftrightarrow>
      \<not> (\<exists>r<9. \<exists>c<9. \<not> official state ! r ! c \<and> userEntries state ! r ! c = 0)"
    by (simp add: findHint_None_iff openCell_def)
  then show ?thesis by simp
qed

theorem findHint_null_iff_complete_witness:
  "wf_state hintState \<and> findHint hintState \<noteq> None \<and>
   (\<exists>r<9. \<exists>c<9. \<not> official hintState ! r ! c \<and> userEntries hintState ! r ! c = 0) \<and>
   wf_state solvedState \<and> findHint solvedState = None \<and>
   \<not> (\<exists>r<9. \<exists>c<9. \<not> official solvedState ! r ! c \<and> userEntries solvedState ! r ! c = 0)"
proof -
  note h = findHint_null_iff_complete [OF hintState_wf hintState_official, THEN conjunct1]
  note s = findHint_null_iff_complete [OF solvedState_wf solvedState_official, THEN conjunct1]
  have n: "findHint hintState \<noteq> None" by (simp add: hintState_hint)
  have e: "\<exists>r<9. \<exists>c<9. \<not> official hintState ! r ! c \<and> userEntries hintState ! r ! c = 0"
    using h n by simp
  have f: "\<not> (\<exists>r<9. \<exists>c<9. \<not> official solvedState ! r ! c \<and> userEntries solvedState ! r ! c = 0)"
    using s solvedState_hint by simp
  show ?thesis using hintState_wf n e solvedState_wf solvedState_hint f by (intro conjI)
qed

text \<open>
  C9. Every hint that \<^verbatim>\<open>findHint\<close> returns, by whichever technique, reports as its number
  the solution's value at the reported row and column.
\<close>

theorem findHint_number_is_solution:
  "findHint state = Some h \<Longrightarrow> hintNumber h = solution state ! hintRow h ! hintCol h"
  by (rule findHint_number)

theorem findHint_number_is_solution_witness:
  "findHint hintState =
     Some \<lparr>hintRow = 0, hintCol = 0, hintNumber = 1, hintTechnique = ''Naked Single''\<rparr> \<and>
   hintNumber \<lparr>hintRow = 0, hintCol = 0, hintNumber = 1, hintTechnique = ''Naked Single''\<rparr>
     = solution hintState ! 0 ! 0"
  using hintState_hint findHint_number_is_solution [OF hintState_hint] by simp

text \<open>
  C10. For every array in the store, \<^verbatim>\<open>shuffleArray\<close> returns a reference to a new array
  whose content is a permutation of the argument's, and every array that existed before
  the call, the argument among them, has the content it had; after
  \<^verbatim>\<open>boxes.forEach(box => this.shuffleArray(box))\<close>, which drops the returned references,
  every array that existed before has the content it had.
\<close>

theorem shuffleArray_copies:
  "array < length store \<Longrightarrow> set boxRefs \<subseteq> {..<length store} \<Longrightarrow>
     (case shuffleArrayRef store array rnd of
        (shuffled, store', rnd') \<Rightarrow>
          length store \<le> shuffled \<and> shuffled < length store' \<and>
          mset (store' ! shuffled) = mset (store ! array) \<and>
          store' ! array = store ! array \<and>
          take (length store) store' = store) \<and>
     take (length store) (fst (forEachShuffle boxRefs store rnd)) = store"
proof -
  assume a: "array < length store" and b: "set boxRefs \<subseteq> {..<length store}"
  obtain new where "fst (forEachShuffle boxRefs store rnd) = store @ new"
    using forEachShuffle_pure [OF b, of rnd] by blast
  then have "take (length store) (fst (forEachShuffle boxRefs store rnd)) = store" by simp
  then show ?thesis
    using a by (simp add: shuffleArrayRef_pure mset_shuffleArray nth_append)
qed

theorem shuffleArray_copies_witness:
  "(0::nat) < length [[1, 2, 3::int]] \<and> set [0] \<subseteq> {..<length [[1, 2, 3::int]]} \<and>
   (case shuffleArrayRef [[1, 2, 3::int]] 0 (\<lambda>k. Abs_rand01 0) of
      (shuffled, store', rnd') \<Rightarrow>
        length [[1, 2, 3::int]] \<le> shuffled \<and> shuffled < length store' \<and>
        mset (store' ! shuffled) = mset ([[1, 2, 3::int]] ! 0) \<and>
        store' ! 0 = [[1, 2, 3::int]] ! 0 \<and>
        take (length [[1, 2, 3::int]]) store' = [[1, 2, 3::int]]) \<and>
   take (length [[1, 2, 3::int]]) (fst (forEachShuffle [0] [[1, 2, 3::int]] (\<lambda>k. Abs_rand01 0)))
     = [[1, 2, 3::int]]"
proof -
  have h: "(0::nat) < length [[1, 2, 3::int]]" "set [0] \<subseteq> {..<length [[1, 2, 3::int]]}"
    by simp_all
  note t = shuffleArray_copies [OF h, of "\<lambda>k. Abs_rand01 0"]
  show ?thesis by (rule conjI [OF h(1) conjI [OF h(2) t]])
qed

end
